theory Spec2Isabelle
  imports Complex_Main "HOL-Library.Sublist"
begin

section \<open>Data model (types/pattern.ts)\<close>

text \<open>
  JavaScript numbers are modelled as \<^typ>\<open>real\<close>: the arithmetic of the sequencer is
  read as exact arithmetic. A step index and a step count are \<^typ>\<open>nat\<close>. The values
  \<open>NaN\<close> and \<open>Infinity\<close>, which JavaScript produces for \<open>x % 0\<close> and \<open>60 / 0\<close>, have
  no counterpart here, so every statement about the accumulator assumes a positive tempo
  and a positive step count.
\<close>

type_synonym SynthParameters = "string \<rightharpoonup> real"

record StepData =
  active :: bool
  velocity :: real
  probability :: real
  microTiming :: real
  parameters :: "SynthParameters option"

record Track =
  track_id :: string
  track_name :: string
  synthType :: string
  volume :: real
  mute :: bool
  solo :: bool
  steps :: "StepData list"
  synthParams :: SynthParameters

text \<open>The field \<open>steps\<close> of a pattern (the step count) is called \<open>stepCount\<close> here,
  since a track has a field \<open>steps\<close> of its own.\<close>

record Pattern =
  pattern_id :: string
  pattern_name :: string
  bpm :: real
  swing :: real
  tracks :: "Track list"
  stepCount :: nat
  created :: real
  version :: real

section \<open>Exceptions\<close>

text \<open>A call either returns or throws; the state reached is kept in both cases.\<close>

datatype error = TypeError | RangeError | InvalidStateError

datatype 's outcome = Returned 's | Thrown error 's

section \<open>The audio engine manager (AudioEngine)\<close>

record AudioContext =
  currentTime :: real

text \<open>
  A synthesizer of the engine is seen through the calls of its \<open>trigger\<close> method: each call
  \<open>synth.trigger(time, velocity, params)\<close> is recorded with the key of the synthesizer.
\<close>

record TriggerCall =
  trig_synth :: string
  trig_time :: real
  trig_velocity :: real
  trig_params :: SynthParameters

record AudioEngine =
  audioContext :: "AudioContext option"
  synths :: "string set"
  initialized :: bool
  triggered :: "TriggerCall list"

section \<open>The browser: timers, console, random numbers\<close>

record Window =
  intervals :: "nat set"
  nextHandle :: nat
  timeouts :: "(real \<times> nat) list"
  console :: "string list"
  randoms :: "nat \<Rightarrow> real"
  drawn :: nat

section \<open>The sequencer (class Sequencer)\<close>

record Sequencer =
  isPlaying :: bool
  currentStep :: nat
  nextStepTime :: real
  lookahead :: real
  scheduleAheadTime :: real
  timerID :: "nat option"
  pattern :: "Pattern option"
  onStepCallback :: "nat option"

text \<open>
  The sequencer and the audio engine are global instances; with the browser they form the
  state every method works on. The field \<open>scheduled\<close> is a history variable, not a field of
  the program: it lists the calls \<open>scheduleStep(step, time)\<close> made so far.
\<close>

record World =
  sequencer :: Sequencer
  audioEngine :: AudioEngine
  window :: Window
  scheduled :: "(nat \<times> real) list"


definition new_Sequencer :: Sequencer where
  "new_Sequencer =
     \<lparr>isPlaying = False, currentStep = 0, nextStepTime = 0, lookahead = 25,
      scheduleAheadTime = 0.1, timerID = None, pattern = None, onStepCallback = None\<rparr>"

definition console_write :: "string \<Rightarrow> World \<Rightarrow> World" where
  "console_write msg w = w\<lparr>window := (window w)\<lparr>console := console (window w) @ [msg]\<rparr>\<rparr>"

definition setInterval :: "World \<Rightarrow> nat \<times> World" where
  "setInterval w =
     (let h = nextHandle (window w)
      in (h, w\<lparr>window := (window w)\<lparr>intervals := insert h (intervals (window w)),
                                    nextHandle := h + 1\<rparr>\<rparr>))"

definition clearInterval :: "nat \<Rightarrow> World \<Rightarrow> World" where
  "clearInterval h w = w\<lparr>window := (window w)\<lparr>intervals := intervals (window w) - {h}\<rparr>\<rparr>"

definition setTimeout :: "nat \<Rightarrow> real \<Rightarrow> World \<Rightarrow> World" where
  "setTimeout step delay w =
     w\<lparr>window := (window w)\<lparr>timeouts := timeouts (window w) @ [(delay, step)],
                            nextHandle := nextHandle (window w) + 1\<rparr>\<rparr>"

definition Math_random :: "World \<Rightarrow> real \<times> World" where
  "Math_random w =
     (randoms (window w) (drawn (window w)),
      w\<lparr>window := (window w)\<lparr>drawn := drawn (window w) + 1\<rparr>\<rparr>)"

definition isInitialized :: "AudioEngine \<Rightarrow> bool" where
  "isInitialized e = initialized e"

definition getCurrentTime :: "AudioEngine \<Rightarrow> real" where
  "getCurrentTime e = (case audioContext e of Some c \<Rightarrow> currentTime c | None \<Rightarrow> 0)"

definition triggerDrum :: "string \<Rightarrow> real \<Rightarrow> SynthParameters \<Rightarrow> World \<Rightarrow> World" where
  "triggerDrum synthType' velocity' params w =
     (let e = audioEngine w in
      case audioContext e of
        None \<Rightarrow> console_write ''Audio engine not initialized'' w
      | Some c \<Rightarrow>
          if \<not> initialized e then console_write ''Audio engine not initialized'' w
          else if synthType' \<notin> synths e
            then console_write (''Synth type not found: '' @ synthType') w
          else
            let time = currentTime c
            in w\<lparr>audioEngine := e\<lparr>triggered := triggered e @
                 [\<lparr>trig_synth = synthType', trig_time = time,
                   trig_velocity = velocity' / 127, trig_params = params\<rparr>]\<rparr>\<rparr>)"

definition stop :: "World \<Rightarrow> World" where
  "stop w =
     (let s = sequencer w in
      if \<not> isPlaying s then w
      else
        let w1 = w\<lparr>sequencer := s\<lparr>isPlaying := False, currentStep := 0\<rparr>\<rparr>;
            w2 = (case timerID s of
                    None \<Rightarrow> w1
                  | Some h \<Rightarrow> (clearInterval h w1)\<lparr>sequencer :=
                                 (sequencer w1)\<lparr>timerID := None\<rparr>\<rparr>)
        in console_write ''Sequencer stopped'' w2)"

text \<open>The body of the callback that \<open>scheduleStep\<close> runs for every track.\<close>

definition trackCallback :: "bool \<Rightarrow> nat \<Rightarrow> Track \<Rightarrow> World \<Rightarrow> World outcome" where
  "trackCallback hasSolo step track w =
     (if length (steps track) \<le> step then Thrown TypeError w
      else
        let stepData = steps track ! step in
        if \<not> active stepData then Returned w
        else if mute track then Returned w
        else if hasSolo \<and> \<not> solo track then Returned w
        else
          let (r, w1) = Math_random w in
          if r > probability stepData then Returned w1
          else
            let velocity' = velocity stepData * volume track;
                triggerParams = synthParams track ++
                  (case parameters stepData of None \<Rightarrow> Map.empty | Some ps \<Rightarrow> ps)
            in Returned (triggerDrum (synthType track) velocity' triggerParams w1))"

fun forEach :: "(Track \<Rightarrow> World \<Rightarrow> World outcome) \<Rightarrow> Track list \<Rightarrow> World \<Rightarrow> World outcome" where
  "forEach f [] w = Returned w"
| "forEach f (track # rest) w =
     (case f track w of
        Thrown e w' \<Rightarrow> Thrown e w'
      | Returned w' \<Rightarrow> forEach f rest w')"

definition scheduleStep :: "nat \<Rightarrow> real \<Rightarrow> World \<Rightarrow> World outcome" where
  "scheduleStep step time w =
     (case pattern (sequencer w) of
        None \<Rightarrow> Returned w
      | Some p \<Rightarrow>
          let w0 = w\<lparr>scheduled := scheduled w @ [(step, time)]\<rparr>;
              w1 = (case onStepCallback (sequencer w0) of
                      None \<Rightarrow> w0
                    | Some cb \<Rightarrow>
                        let uiDelay = max 0 ((time - getCurrentTime (audioEngine w0)) * 1000 - 10)
                        in setTimeout step uiDelay w0);
              hasSolo = list_ex solo (tracks p)
          in forEach (trackCallback hasSolo step) (tracks p) w1)"

definition nextStep :: "Sequencer \<Rightarrow> Sequencer" where
  "nextStep s =
     (case pattern s of
        None \<Rightarrow> s
      | Some p \<Rightarrow>
          let secondsPerBeat = 60 / bpm p;
              secondsPerStep = secondsPerBeat / 4;
              swingOffset = (if currentStep s mod 2 = 1 \<and> swing p > 0
                             then secondsPerStep * swing p * 0.5 else 0)
          in s\<lparr>nextStepTime := nextStepTime s + (secondsPerStep + swingOffset),
                currentStep := (currentStep s + 1) mod stepCount p\<rparr>)"

text \<open>The \<open>while\<close> loop of \<open>schedule\<close>; \<open>None\<close> stands for a loop that never ends.\<close>

partial_function (option) scheduleLoop :: "real \<Rightarrow> World \<Rightarrow> World outcome option" where
  "scheduleLoop now w =
     (if nextStepTime (sequencer w) < now + scheduleAheadTime (sequencer w) then
        (case scheduleStep (currentStep (sequencer w)) (nextStepTime (sequencer w)) w of
           Thrown e w' \<Rightarrow> Some (Thrown e w')
         | Returned w' \<Rightarrow> scheduleLoop now (w'\<lparr>sequencer := nextStep (sequencer w')\<rparr>))
      else Some (Returned w))"

definition schedule :: "World \<Rightarrow> World outcome option" where
  "schedule w =
     (if pattern (sequencer w) = None \<or> \<not> isPlaying (sequencer w) then Some (Returned w)
      else scheduleLoop (getCurrentTime (audioEngine w)) w)"

definition start :: "Pattern \<Rightarrow> nat option \<Rightarrow> World \<Rightarrow> World outcome option" where
  "start p onStep w =
     (if isPlaying (sequencer w) then Some (Returned w)
      else if \<not> isInitialized (audioEngine w)
        then Some (Returned (console_write ''Audio engine not initialized'' w))
      else
        let w1 = w\<lparr>sequencer := (sequencer w)\<lparr>pattern := Some p, onStepCallback := onStep,
                     isPlaying := True, currentStep := 0,
                     nextStepTime := getCurrentTime (audioEngine w)\<rparr>\<rparr>
        in case schedule w1 of
             None \<Rightarrow> None
           | Some (Thrown e w2) \<Rightarrow> Some (Thrown e w2)
           | Some (Returned w2) \<Rightarrow>
               let (h, w3) = setInterval w2;
                   w4 = w3\<lparr>sequencer := (sequencer w3)\<lparr>timerID := Some h\<rparr>\<rparr>
               in Some (Returned (console_write ''Sequencer started'' w4)))"

definition updatePattern :: "Pattern \<Rightarrow> Sequencer \<Rightarrow> Sequencer" where
  "updatePattern p s = s\<lparr>pattern := Some p\<rparr>"

definition getIsPlaying :: "Sequencer \<Rightarrow> bool" where
  "getIsPlaying s = isPlaying s"

definition getCurrentStep :: "Sequencer \<Rightarrow> nat" where
  "getCurrentStep s = currentStep s"


section \<open>Voices and audio nodes (BaseDrumSynth)\<close>

text \<open>
  An audio node of the Web Audio API, as far as a voice uses it: whether it is an
  \<open>AudioScheduledSourceNode\<close>, the times given to \<open>start\<close> and \<open>stop\<close>, and its outgoing
  connections. Nodes are objects shared between a voice and the closures that stop it, so
  they live in a store indexed by identity. The automation of the parameters of a node
  (frequencies, gains, envelopes) is not part of the model.
\<close>

record AudioNode =
  scheduledSource :: bool
  started :: "real option"
  stopped :: "real option"
  outputs :: "nat set"

text \<open>
  The field \<open>parameters\<close> of a synthesizer (its persistent parameter map) is called
  \<open>defaults\<close> here, since a step has a field \<open>parameters\<close> of its own.
  The variable \<open>chokeGroup\<close> that the \<open>stop\<close> closure of a hi-hat voice captures is kept
  as a field of the voice; \<open>voiceId\<close> is the identity of the voice object. A synthesizer
  also carries the store of its nodes (\<open>heap\<close>), the next fresh identity (\<open>nextId\<close>) and its
  pending clean-up timers (\<open>cleanups\<close>, each with its delay in milliseconds and its voice).
\<close>

record DrumVoice =
  voiceId :: nat
  nodes :: "nat list"
  startTime :: real
  endTime :: real
  chokeGroup :: "real option"

record BaseDrumSynth =
  synthContext :: AudioContext
  outputNode :: nat
  defaults :: SynthParameters
  voices :: "DrumVoice list"
  heap :: "nat \<rightharpoonup> AudioNode"
  nextId :: nat
  cleanups :: "(real \<times> DrumVoice) list"

record HiHatSynth = BaseDrumSynth +
  noiseBuffer :: bool
  activeChokeGroup :: "real \<rightharpoonup> DrumVoice"

text \<open>
  \<open>stop(when)\<close> of the Web Audio API throws when the node was never started and when the
  time is negative; a further call replaces the stop time. The field \<open>stopped\<close> holds the
  time of the last call that went through; whether the node had fallen silent before that
  time is not recorded.
\<close>

definition AudioScheduledSourceNode_stop :: "real \<Rightarrow> AudioNode \<Rightarrow> error + AudioNode" where
  "AudioScheduledSourceNode_stop when n =
     (if started n = None then Inl InvalidStateError
      else if when < 0 then Inl RangeError
      else Inr (n\<lparr>stopped := Some when\<rparr>))"

definition disconnect :: "AudioNode \<Rightarrow> AudioNode" where
  "disconnect n = n\<lparr>outputs := {}\<rparr>"

text \<open>The callback of \<open>nodes.forEach\<close> in the \<open>stop\<close> closure of a voice: the exception of
  \<open>node.stop\<close> is caught and dropped.\<close>

definition stopNode :: "real \<Rightarrow> AudioNode \<Rightarrow> AudioNode" where
  "stopNode stopTime node =
     (let node1 = (if scheduledSource node
                   then (case AudioScheduledSourceNode_stop stopTime node of
                           Inl e \<Rightarrow> node
                         | Inr node' \<Rightarrow> node')
                   else node)
      in disconnect node1)"

text \<open>\<open>nodes.forEach(f)\<close> on the nodes of a voice, which the store holds.\<close>

definition nodes_forEach ::
  "(AudioNode \<Rightarrow> AudioNode) \<Rightarrow> nat list \<Rightarrow> (nat \<rightharpoonup> AudioNode) \<Rightarrow> (nat \<rightharpoonup> AudioNode)" where
  "nodes_forEach f ids h =
     fold (\<lambda>i h'. case h' i of None \<Rightarrow> h' | Some node \<Rightarrow> h'(i \<mapsto> f node)) ids h"

definition voices_delete :: "DrumVoice \<Rightarrow> DrumVoice list \<Rightarrow> DrumVoice list" where
  "voices_delete voice vs = filter (\<lambda>v. voiceId v \<noteq> voiceId voice) vs"

definition voices_has :: "DrumVoice \<Rightarrow> DrumVoice list \<Rightarrow> bool" where
  "voices_has voice vs = list_ex (\<lambda>v. voiceId v = voiceId voice) vs"

definition getParameter :: "string \<Rightarrow> real \<Rightarrow> 'a BaseDrumSynth_scheme \<Rightarrow> real" where
  "getParameter param defaultValue s =
     (case defaults s param of Some v \<Rightarrow> v | None \<Rightarrow> defaultValue)"

definition setParameter :: "string \<Rightarrow> real \<Rightarrow> 'a BaseDrumSynth_scheme \<Rightarrow> 'a BaseDrumSynth_scheme" where
  "setParameter param v s = s\<lparr>defaults := (defaults s)(param \<mapsto> v)\<rparr>"

text \<open>\<open>params?.key ?? fallback\<close>\<close>

definition paramOr :: "SynthParameters option \<Rightarrow> string \<Rightarrow> real \<Rightarrow> real" where
  "paramOr params key fallback =
     (case params of
        None \<Rightarrow> fallback
      | Some ps \<Rightarrow> (case ps key of Some v \<Rightarrow> v | None \<Rightarrow> fallback))"

section \<open>The kick drum (KickSynth)\<close>

definition KickSynth_defaultParameters :: SynthParameters where
  "KickSynth_defaultParameters =
     [''pitch'' \<mapsto> 60, ''decay'' \<mapsto> 0.5, ''tone'' \<mapsto> 0.5, ''subLevel'' \<mapsto> 0.8,
      ''clickLevel'' \<mapsto> 0.3, ''pitchDecay'' \<mapsto> 0.05, ''saturation'' \<mapsto> 0.3]"

definition new_KickSynth :: "AudioContext \<Rightarrow> BaseDrumSynth" where
  "new_KickSynth c =
     \<lparr>synthContext = c, outputNode = 0, defaults = KickSynth_defaultParameters,
      voices = [],
      heap = [0 \<mapsto> \<lparr>scheduledSource = False, started = None, stopped = None, outputs = {}\<rparr>],
      nextId = 1, cleanups = []\<rparr>"

text \<open>The \<open>stop\<close> closure of a voice of the kick drum (the snare, clap, rim, tom and
  percussion voices have the same one).\<close>

definition KickSynth_voice_stop :: "DrumVoice \<Rightarrow> real \<Rightarrow> BaseDrumSynth \<Rightarrow> BaseDrumSynth" where
  "KickSynth_voice_stop voice stopTime s =
     s\<lparr>heap := nodes_forEach (stopNode stopTime) (nodes voice) (heap s),
       voices := voices_delete voice (voices s)\<rparr>"

text \<open>
  \<open>trigger\<close> of the kick drum. The Web Audio API throws a \<open>RangeError\<close> for a negative
  event time and for an exponential ramp to the value 0; all of these calls come before
  the voice is registered, so a throw leaves the synthesizer as it was.
\<close>

definition KickSynth_trigger ::
  "real \<Rightarrow> real \<Rightarrow> SynthParameters option \<Rightarrow> BaseDrumSynth \<Rightarrow> BaseDrumSynth outcome" where
  "KickSynth_trigger time velocity' params s =
     (let pitch = paramOr params ''pitch'' (getParameter ''pitch'' 60 s);
          decay = paramOr params ''decay'' (getParameter ''decay'' 0.5 s);
          pitchDecay = paramOr params ''pitchDecay'' (getParameter ''pitchDecay'' 0.05 s)
      in
      if time < 0 \<or> pitch = 0 \<or> time + pitchDecay < 0 \<or> time + decay < 0
      then Thrown RangeError s
      else
        let b = nextId s;
            endTime' = time + decay + 0.1;
            subOsc = \<lparr>scheduledSource = True, started = Some time, stopped = Some endTime',
                      outputs = {b + 1}\<rparr>;
            subGain = \<lparr>scheduledSource = False, started = None, stopped = None,
                       outputs = {b + 5}\<rparr>;
            clickOsc = \<lparr>scheduledSource = True, started = Some time, stopped = Some endTime',
                        outputs = {b + 3}\<rparr>;
            clickFilter = \<lparr>scheduledSource = False, started = None, stopped = None,
                           outputs = {b + 4}\<rparr>;
            clickGain = \<lparr>scheduledSource = False, started = None, stopped = None,
                         outputs = {b + 5}\<rparr>;
            saturationNode = \<lparr>scheduledSource = False, started = None, stopped = None,
                              outputs = {b + 6}\<rparr>;
            masterGain = \<lparr>scheduledSource = False, started = None, stopped = None,
                          outputs = {outputNode s}\<rparr>;
            voice = \<lparr>voiceId = b + 7, nodes = [b, b + 1, b + 2, b + 3, b + 4, b + 5, b + 6],
                     startTime = time, endTime = endTime', chokeGroup = None\<rparr>
        in Returned (s\<lparr>heap := (heap s)(b \<mapsto> subOsc, b + 1 \<mapsto> subGain, b + 2 \<mapsto> clickOsc,
                                  b + 3 \<mapsto> clickFilter, b + 4 \<mapsto> clickGain,
                                  b + 5 \<mapsto> saturationNode, b + 6 \<mapsto> masterGain),
                        nextId := b + 8,
                        voices := voices s @ [voice],
                        cleanups := cleanups s @
                          [((endTime' - currentTime (synthContext s)) * 1000 + 100, voice)]\<rparr>))"

text \<open>The callback of the clean-up timer of a voice.\<close>

definition KickSynth_autoCleanup :: "DrumVoice \<Rightarrow> BaseDrumSynth \<Rightarrow> BaseDrumSynth" where
  "KickSynth_autoCleanup voice s =
     (if voices_has voice (voices s)
      then KickSynth_voice_stop voice (currentTime (synthContext s)) s
      else s)"

section \<open>The hi-hat (HiHatSynth)\<close>

definition HiHatSynth_defaultParameters :: SynthParameters where
  "HiHatSynth_defaultParameters =
     [''pitch'' \<mapsto> 8000, ''decay'' \<mapsto> 0.05, ''tone'' \<mapsto> 0.7, ''color'' \<mapsto> 8000,
      ''metallic'' \<mapsto> 0.6, ''chokeGroup'' \<mapsto> 0]"

definition new_HiHatSynth :: "AudioContext \<Rightarrow> HiHatSynth" where
  "new_HiHatSynth c =
     \<lparr>synthContext = c, outputNode = 0, defaults = HiHatSynth_defaultParameters,
      voices = [],
      heap = [0 \<mapsto> \<lparr>scheduledSource = False, started = None, stopped = None, outputs = {}\<rparr>],
      nextId = 1, cleanups = [], noiseBuffer = True, activeChokeGroup = Map.empty\<rparr>"

definition HiHatSynth_voice_stop :: "DrumVoice \<Rightarrow> real \<Rightarrow> HiHatSynth \<Rightarrow> HiHatSynth" where
  "HiHatSynth_voice_stop voice stopTime s =
     (let s1 = s\<lparr>heap := nodes_forEach (stopNode stopTime) (nodes voice) (heap s),
                  voices := voices_delete voice (voices s)\<rparr>
      in case chokeGroup voice of
           None \<Rightarrow> s1
         | Some g \<Rightarrow>
             (case activeChokeGroup s1 g of
                None \<Rightarrow> s1
              | Some v \<Rightarrow>
                  if voiceId v = voiceId voice
                  then s1\<lparr>activeChokeGroup := (activeChokeGroup s1)(g := None)\<rparr>
                  else s1))"

text \<open>The block of \<open>trigger\<close> that handles the choke groups: it stops the previous
  hi-hat of the same group.\<close>

definition chokePrevious :: "real \<Rightarrow> real \<Rightarrow> HiHatSynth \<Rightarrow> HiHatSynth" where
  "chokePrevious chokeGroup' time s =
     (case activeChokeGroup s chokeGroup' of
        None \<Rightarrow> s
      | Some previousVoice \<Rightarrow>
          let s' = HiHatSynth_voice_stop previousVoice time s
          in s'\<lparr>activeChokeGroup := (activeChokeGroup s')(chokeGroup' := None)\<rparr>)"

definition HiHatSynth_trigger ::
  "real \<Rightarrow> real \<Rightarrow> SynthParameters option \<Rightarrow> HiHatSynth \<Rightarrow> HiHatSynth outcome" where
  "HiHatSynth_trigger time velocity' params s =
     (let decay = paramOr params ''decay'' (getParameter ''decay'' 0.05 s);
          chokeGroup' = paramOr params ''chokeGroup'' (getParameter ''chokeGroup'' 0 s);
          s1 = chokePrevious chokeGroup' time s
      in
      if \<not> noiseBuffer s1 then Returned s1
      else if time < 0 \<or> time + decay < 0 then Thrown RangeError s1
      else
        let b = nextId s1;
            endTime' = time + decay + 0.05;
            noiseSource = \<lparr>scheduledSource = True, started = Some time, stopped = Some endTime',
                           outputs = {b + 1, b + 2, b + 3}\<rparr>;
            filter1 = \<lparr>scheduledSource = False, started = None, stopped = None,
                       outputs = {b + 4}\<rparr>;
            filter2 = \<lparr>scheduledSource = False, started = None, stopped = None,
                       outputs = {b + 4}\<rparr>;
            filter3 = \<lparr>scheduledSource = False, started = None, stopped = None,
                       outputs = {b + 4}\<rparr>;
            hpFilter = \<lparr>scheduledSource = False, started = None, stopped = None,
                        outputs = {b + 5}\<rparr>;
            envGain = \<lparr>scheduledSource = False, started = None, stopped = None,
                       outputs = {b + 6}\<rparr>;
            outputGain = \<lparr>scheduledSource = False, started = None, stopped = None,
                          outputs = {outputNode s1}\<rparr>;
            voice = \<lparr>voiceId = b + 7, nodes = [b, b + 1, b + 2, b + 3, b + 4, b + 5, b + 6],
                     startTime = time, endTime = endTime', chokeGroup = Some chokeGroup'\<rparr>
        in Returned (s1\<lparr>heap := (heap s1)(b \<mapsto> noiseSource, b + 1 \<mapsto> filter1, b + 2 \<mapsto> filter2,
                                   b + 3 \<mapsto> filter3, b + 4 \<mapsto> hpFilter, b + 5 \<mapsto> envGain,
                                   b + 6 \<mapsto> outputGain),
                         nextId := b + 8,
                         voices := voices s1 @ [voice],
                         cleanups := cleanups s1 @
                           [((endTime' - currentTime (synthContext s1)) * 1000 + 100, voice)],
                         activeChokeGroup := (activeChokeGroup s1)(chokeGroup' \<mapsto> voice)\<rparr>))"

definition HiHatSynth_autoCleanup :: "DrumVoice \<Rightarrow> HiHatSynth \<Rightarrow> HiHatSynth" where
  "HiHatSynth_autoCleanup voice s =
     (if voices_has voice (voices s)
      then HiHatSynth_voice_stop voice (currentTime (synthContext s)) s
      else s)"

section \<open>The environment of a playback run\<close>

definition stateOf :: "'s outcome \<Rightarrow> 's" where
  "stateOf out = (case out of Returned s \<Rightarrow> s | Thrown e s \<Rightarrow> s)"

text \<open>The hardware clock of the audio context moves on between two callbacks.\<close>

definition clockAt :: "real \<Rightarrow> World \<Rightarrow> World" where
  "clockAt t w =
     w\<lparr>audioEngine := (audioEngine w)\<lparr>audioContext :=
        map_option (\<lambda>c. c\<lparr>currentTime := t\<rparr>) (audioContext (audioEngine w))\<rparr>\<rparr>"

text \<open>The callback \<open>() => this.schedule()\<close> that \<open>start\<close> hands to \<open>setInterval\<close>; the
  browser runs it as long as the handle has not been cleared.\<close>

definition intervalCallback :: "World \<Rightarrow> World outcome option" where
  "intervalCallback w =
     (case timerID (sequencer w) of
        None \<Rightarrow> Some (Returned w)
      | Some h \<Rightarrow> if h \<in> intervals (window w) then schedule w else Some (Returned w))"

text \<open>The interval timer fires at the clock times of the list, one after the other.\<close>

fun ticks :: "real list \<Rightarrow> World \<Rightarrow> World outcome option" where
  "ticks [] w = Some (Returned w)"
| "ticks (t # ts) w =
     (case intervalCallback (clockAt t w) of
        None \<Rightarrow> None
      | Some (Thrown e w') \<Rightarrow> Some (Thrown e w')
      | Some (Returned w') \<Rightarrow> ticks ts w')"

definition playback :: "Pattern \<Rightarrow> nat option \<Rightarrow> real list \<Rightarrow> World \<Rightarrow> World outcome option" where
  "playback p onStep ts w =
     (case start p onStep w of
        None \<Rightarrow> None
      | Some (Thrown e w') \<Rightarrow> Some (Thrown e w')
      | Some (Returned w') \<Rightarrow> ticks ts w')"

text \<open>The timer of the sequencer fires every 25 ms: the first \<open>n\<close> ticks of an ideal timer.\<close>

definition tickTimes :: "nat \<Rightarrow> real list" where
  "tickTimes n = map (\<lambda>k. real k * 0.025) [1..<Suc n]"

definition dispatchTimes :: "World outcome option \<Rightarrow> (string \<times> real) list option" where
  "dispatchTimes r =
     map_option (\<lambda>out. map (\<lambda>c. (trig_synth c, trig_time c))
                          (triggered (audioEngine (stateOf out)))) r"

section \<open>Scenarios\<close>

text \<open>The steps and tracks of \<open>createDefaultPattern\<close> (the pattern store), with the kick
  drum on every fourth step.\<close>

definition stepOff :: StepData where
  "stepOff = \<lparr>active = False, velocity = 100, probability = 1, microTiming = 0,
              parameters = None\<rparr>"

definition stepOn :: StepData where
  "stepOn = stepOff\<lparr>active := True\<rparr>"

definition silent16 :: "StepData list" where
  "silent16 = [stepOff, stepOff, stepOff, stepOff, stepOff, stepOff, stepOff, stepOff,
               stepOff, stepOff, stepOff, stepOff, stepOff, stepOff, stepOff, stepOff]"

definition fourOnTheFloor16 :: "StepData list" where
  "fourOnTheFloor16 = [stepOn, stepOff, stepOff, stepOff, stepOn, stepOff, stepOff, stepOff,
                       stepOn, stepOff, stepOff, stepOff, stepOn, stepOff, stepOff, stepOff]"

definition defaultTrack ::
  "string \<Rightarrow> string \<Rightarrow> string \<Rightarrow> real \<Rightarrow> StepData list \<Rightarrow> SynthParameters \<Rightarrow> Track" where
  "defaultTrack i n ty vol ss ps =
     \<lparr>track_id = i, track_name = n, synthType = ty, volume = vol, mute = False,
      solo = False, steps = ss, synthParams = ps\<rparr>"

definition kickTrack :: Track where
  "kickTrack = defaultTrack ''0'' ''Kick'' ''kick'' 1 fourOnTheFloor16
                 [''pitch'' \<mapsto> 60, ''decay'' \<mapsto> 0.5, ''tone'' \<mapsto> 0.5]"

definition kickPattern :: Pattern where
  "kickPattern =
     \<lparr>pattern_id = ''p'', pattern_name = ''New Pattern'', bpm = 120, swing = 0,
      tracks =
        [kickTrack,
         defaultTrack ''1'' ''Snare'' ''snare'' 0.8 silent16
           [''pitch'' \<mapsto> 200, ''decay'' \<mapsto> 0.15, ''tone'' \<mapsto> 0.5],
         defaultTrack ''2'' ''Closed HH'' ''hihat'' 0.6 silent16
           [''pitch'' \<mapsto> 8000, ''decay'' \<mapsto> 0.05, ''tone'' \<mapsto> 0.7],
         defaultTrack ''3'' ''Open HH'' ''hihat'' 0.5 silent16
           [''pitch'' \<mapsto> 8000, ''decay'' \<mapsto> 0.15, ''tone'' \<mapsto> 0.6],
         defaultTrack ''4'' ''Clap'' ''clap'' 0.7 silent16
           [''pitch'' \<mapsto> 1000, ''decay'' \<mapsto> 0.1, ''tone'' \<mapsto> 0.6],
         defaultTrack ''5'' ''Rim'' ''rim'' 0.7 silent16
           [''pitch'' \<mapsto> 400, ''decay'' \<mapsto> 0.08, ''tone'' \<mapsto> 0.7],
         defaultTrack ''6'' ''Tom'' ''tom'' 0.8 silent16
           [''pitch'' \<mapsto> 150, ''decay'' \<mapsto> 0.4, ''tone'' \<mapsto> 0.5],
         defaultTrack ''7'' ''Perc'' ''perc1'' 0.6 silent16
           [''pitch'' \<mapsto> 300, ''decay'' \<mapsto> 0.12, ''tone'' \<mapsto> 0.5]],
      stepCount = 16, created = 0, version = 1\<rparr>"

text \<open>The audio engine after \<open>initialize()\<close>, with the clock at \<open>t\<close>.\<close>

definition readyEngine :: "real \<Rightarrow> AudioEngine" where
  "readyEngine t =
     \<lparr>audioContext = Some \<lparr>currentTime = t\<rparr>,
      synths = {''kick'', ''snare'', ''hihat'', ''clap'', ''rim'', ''tom'', ''perc1'', ''perc2''},
      initialized = True, triggered = []\<rparr>"


definition idleWorld :: "real \<Rightarrow> (nat \<Rightarrow> real) \<Rightarrow> World" where
  "idleWorld t rnd =
     \<lparr>sequencer = new_Sequencer, audioEngine = readyEngine t,
      window = \<lparr>intervals = {}, nextHandle = 1, timeouts = [], console = [],
                randoms = rnd, drawn = 0\<rparr>,
      scheduled = []\<rparr>"

text \<open>A world in which the sequencer plays the kick pattern and waits for step 1.\<close>

definition playingWorld :: World where
  "playingWorld =
     \<lparr>sequencer = new_Sequencer\<lparr>isPlaying := True, currentStep := 1, nextStepTime := 1 / 8,
                    timerID := Some 1, pattern := Some kickPattern, onStepCallback := Some 0\<rparr>,
      audioEngine = readyEngine 0,
      window = \<lparr>intervals = {1}, nextHandle = 2, timeouts = [], console = [],
                randoms = (\<lambda>_. 1 / 2), drawn = 0\<rparr>,
      scheduled = [(0, 0)]\<rparr>"

text \<open>A kick track whose first step overrides the pitch and whose second step does not.\<close>

definition overrideTrack :: Track where
  "overrideTrack = defaultTrack ''0'' ''Kick'' ''kick'' 0.8
                     [stepOn\<lparr>parameters := Some [''pitch'' \<mapsto> 999]\<rparr>, stepOn]
                     [''pitch'' \<mapsto> 60, ''decay'' \<mapsto> 0.5]"

definition zeroProbabilityTrack :: Track where
  "zeroProbabilityTrack = defaultTrack ''0'' ''Kick'' ''kick'' 1 [stepOn\<lparr>probability := 0\<rparr>]
                            [''pitch'' \<mapsto> 60]"

definition soloPattern :: Pattern where
  "soloPattern = kickPattern\<lparr>tracks := [kickTrack\<lparr>solo := True\<rparr>,
      defaultTrack ''1'' ''Snare'' ''snare'' 0.8 fourOnTheFloor16 [''pitch'' \<mapsto> 200]]\<rparr>"

text \<open>A kick drum with one voice sounding, triggered at clock time 0.\<close>

definition kickSounding :: BaseDrumSynth where
  "kickSounding = stateOf (KickSynth_trigger 0 (100 / 127) None (new_KickSynth \<lparr>currentTime = 0\<rparr>))"

definition kickVoice :: DrumVoice where
  "kickVoice = \<lparr>voiceId = 8, nodes = [1, 2, 3, 4, 5, 6, 7], startTime = 0, endTime = 3 / 5,
                chokeGroup = None\<rparr>"



definition swingPattern :: Pattern where
  "swingPattern = kickPattern\<lparr>swing := 0.6\<rparr>"

text \<open>The calls \<open>scheduleStep(step, time)\<close> of a run, and the synthesizer and time of every
  trigger it sent.\<close>

definition scheduledTimes :: "World outcome option \<Rightarrow> (nat \<times> real) list option" where
  "scheduledTimes r = map_option (\<lambda>out. scheduled (stateOf out)) r"

text \<open>The triggers sent between two states all carry one time, and the clock has not
  moved.\<close>

definition sentAt :: "real \<Rightarrow> World \<Rightarrow> World \<Rightarrow> bool" where
  "sentAt now w w' \<longleftrightarrow>
     audioContext (audioEngine w') = audioContext (audioEngine w) \<and>
     (\<exists>new. triggered (audioEngine w') = triggered (audioEngine w) @ new \<and>
            (\<forall>c \<in> set new. trig_time c = now))"

section \<open>Reachable states of the hi-hat\<close>

text \<open>The choke group that \<open>trigger\<close> reads from its parameters.\<close>

definition triggerGroup :: "SynthParameters option \<Rightarrow> HiHatSynth \<Rightarrow> real" where
  "triggerGroup params s = paramOr params ''chokeGroup'' (getParameter ''chokeGroup'' 0 s)"

text \<open>The clean-up timer of a voice fires: the browser drops the timer and runs the
  callback.\<close>

definition timerFires :: "real \<times> DrumVoice \<Rightarrow> HiHatSynth \<Rightarrow> HiHatSynth" where
  "timerFires e s = (HiHatSynth_autoCleanup (snd e) s)\<lparr>cleanups := remove1 e (cleanups s)\<rparr>"

text \<open>The states a hi-hat synthesizer can be in: it is created, triggered, cleaned up by
  its timers, its clock moves and its parameters are set.\<close>

inductive reachable :: "HiHatSynth \<Rightarrow> bool" where
  created: "reachable (new_HiHatSynth c)"
| triggered: "reachable s \<Longrightarrow> reachable (stateOf (HiHatSynth_trigger time velocity' params s))"
| timer: "reachable s \<Longrightarrow> e \<in> set (cleanups s) \<Longrightarrow> reachable (timerFires e s)"
| clock: "reachable s \<Longrightarrow> reachable (s\<lparr>synthContext := c\<rparr>)"
| parameter: "reachable s \<Longrightarrow> reachable (setParameter param x s)"

text \<open>The voices whose clean-up timer is pending.\<close>

definition known :: "HiHatSynth \<Rightarrow> DrumVoice set" where
  "known s = snd ` set (cleanups s)"

text \<open>The invariant of the hi-hat: identities are fresh, the voices own disjoint nodes,
  and the voices in the set are exactly the ones registered for their choke groups.\<close>

definition chokeInv :: "HiHatSynth \<Rightarrow> bool" where
  "chokeInv s \<longleftrightarrow>
     distinct (map (\<lambda>e. voiceId (snd e)) (cleanups s)) \<and>
     (\<forall>v \<in> known s. voiceId v < nextId s \<and> (\<forall>i \<in> set (nodes v). i < nextId s)) \<and>
     (\<forall>u \<in> known s. \<forall>v \<in> known s. u \<noteq> v \<longrightarrow> set (nodes u) \<inter> set (nodes v) = {}) \<and>
     set (voices s) \<subseteq> known s \<and> distinct (map voiceId (voices s)) \<and>
     (\<forall>v \<in> set (voices s). \<exists>g. chokeGroup v = Some g \<and> activeChokeGroup s g = Some v) \<and>
     (\<forall>g v. activeChokeGroup s g = Some v \<longrightarrow> v \<in> set (voices s) \<and> chokeGroup v = Some g) \<and>
     (\<forall>v \<in> set (voices s). \<forall>i \<in> set (nodes v).
        \<exists>n. heap s i = Some n \<and> (scheduledSource n \<longrightarrow> started n \<noteq> None))"

text \<open>What the choke block establishes.\<close>

definition choked :: "real \<Rightarrow> real \<Rightarrow> HiHatSynth \<Rightarrow> HiHatSynth \<Rightarrow> bool" where
  "choked g t s s1 \<longleftrightarrow>
     chokeInv s1 \<and> activeChokeGroup s1 g = None \<and> nextId s1 = nextId s \<and>
     cleanups s1 = cleanups s \<and> noiseBuffer s1 = noiseBuffer s \<and>
     synthContext s1 = synthContext s \<and> outputNode s1 = outputNode s \<and>
     set (voices s1) = {v \<in> set (voices s). chokeGroup v \<noteq> Some g} \<and>
     (\<forall>v \<in> set (voices s). \<forall>i \<in> set (nodes v).
        if chokeGroup v = Some g
        then (\<exists>n. heap s i = Some n \<and> heap s1 i = Some (stopNode t n))
        else heap s1 i = heap s i)"

text \<open>The voice and the bookkeeping that a successful \<open>trigger\<close> adds.\<close>

definition newVoice :: "real \<Rightarrow> real \<Rightarrow> real \<Rightarrow> nat \<Rightarrow> DrumVoice" where
  "newVoice g time e b =
     \<lparr>voiceId = b + 7, nodes = [b, b + 1, b + 2, b + 3, b + 4, b + 5, b + 6],
      startTime = time, endTime = e, chokeGroup = Some g\<rparr>"

definition voiceAdded :: "real \<Rightarrow> real \<Rightarrow> HiHatSynth \<Rightarrow> HiHatSynth \<Rightarrow> bool" where
  "voiceAdded g time s1 s' \<longleftrightarrow>
     (\<exists>d e. voices s' = voices s1 @ [newVoice g time e (nextId s1)] \<and>
            cleanups s' = cleanups s1 @ [(d, newVoice g time e (nextId s1))] \<and>
            activeChokeGroup s' = (activeChokeGroup s1)(g \<mapsto> newVoice g time e (nextId s1)) \<and>
            nextId s' = nextId s1 + 8 \<and>
            (\<forall>i. i < nextId s1 \<longrightarrow> heap s' i = heap s1 i) \<and>
            (\<forall>i \<in> set (nodes (newVoice g time e (nextId s1))).
               \<exists>n. heap s' i = Some n \<and> (scheduledSource n \<longrightarrow> started n \<noteq> None)))"

text \<open>The cases in which \<open>trigger\<close> ends after the choke block: no noise buffer, or a
  \<open>RangeError\<close> of the Web Audio API.\<close>

definition triggerSkips :: "real \<Rightarrow> SynthParameters option \<Rightarrow> HiHatSynth \<Rightarrow> bool" where
  "triggerSkips time params s \<longleftrightarrow>
     \<not> noiseBuffer s \<or> time < 0 \<or>
     time + paramOr params ''decay'' (getParameter ''decay'' 0.05 s) < 0"

text \<open>A hi-hat with a sounding voice in choke group 0 and one in choke group 1.\<close>

definition hatClosed :: HiHatSynth where
  "hatClosed = stateOf (HiHatSynth_trigger 0 (100 / 127) None (new_HiHatSynth \<lparr>currentTime = 0\<rparr>))"

definition hatTwoGroups :: HiHatSynth where
  "hatTwoGroups =
     stateOf (HiHatSynth_trigger (1 / 10) (100 / 127) (Some [''chokeGroup'' \<mapsto> 1]) hatClosed)"

definition hatVoiceA :: DrumVoice where
  "hatVoiceA = newVoice 0 0 (1 / 10) 1"

definition hatVoiceB :: DrumVoice where
  "hatVoiceB = newVoice 1 (1 / 10) (1 / 5) 9"

section \<open>Eligible tracks\<close>

text \<open>The wording of the specification: a track is eligible at a step when the step is
  active, the track is not muted, and the track is soloed in case any track is. The step
  has to exist in the track.\<close>

definition eligible :: "bool \<Rightarrow> nat \<Rightarrow> Track \<Rightarrow> bool" where
  "eligible anySolo step track \<longleftrightarrow>
     step < length (steps track) \<and> active (steps track ! step) \<and> \<not> mute track \<and>
     (anySolo \<longrightarrow> solo track)"


text \<open>The audio context, the synthesizers and the random numbers are as they were.\<close>

definition engineKept :: "World \<Rightarrow> World \<Rightarrow> bool" where
  "engineKept w w' \<longleftrightarrow>
     audioContext (audioEngine w') = audioContext (audioEngine w) \<and>
     initialized (audioEngine w') = initialized (audioEngine w) \<and>
     synths (audioEngine w') = synths (audioEngine w) \<and>
     randoms (window w') = randoms (window w)"



section \<open>Frame lemmas\<close>

lemma stateOf_simps [simp]: "stateOf (Returned s) = s" "stateOf (Thrown e s) = s"
  by (simp_all add: stateOf_def)

lemma triggerDrum_frame:
  "sequencer (triggerDrum k v ps w) = sequencer w"
  "scheduled (triggerDrum k v ps w) = scheduled w"
  "drawn (window (triggerDrum k v ps w)) = drawn (window w)"
  by (simp_all add: triggerDrum_def console_write_def Let_def split: option.splits)

section \<open>Starting and stopping\<close>

text \<open>
  C10. Calling \<open>start(pattern2, onStep2)\<close> while the sequencer is playing returns at once and
  changes nothing: the pattern, the step callback, the step cursor, the accumulator and the
  timer stay as they are, and the new pattern is dropped, whereas \<open>updatePattern\<close> would
  install it.
\<close>

theorem start_while_playing_is_noop:
  assumes "isPlaying (sequencer w)"
  shows "start pattern2 onStep2 w = Some (Returned w) \<and>
         pattern (updatePattern pattern2 (sequencer w)) = Some pattern2"
  using assms by (simp add: start_def updatePattern_def)

theorem start_while_playing_is_noop_witness:
  "isPlaying (sequencer playingWorld) \<and>
   start soloPattern (Some 7) playingWorld = Some (Returned playingWorld) \<and>
   pattern (sequencer playingWorld) = Some kickPattern \<and>
   pattern (updatePattern soloPattern (sequencer playingWorld)) = Some soloPattern"
proof -
  have playing: "isPlaying (sequencer playingWorld)"
    by (simp add: playingWorld_def new_Sequencer_def)
  have "pattern (sequencer playingWorld) = Some kickPattern"
    by (simp add: playingWorld_def new_Sequencer_def)
  with playing start_while_playing_is_noop [OF playing, of soloPattern "Some 7"]
  show ?thesis by simp
qed

text \<open>
  C7. \<open>stop()\<close> is idempotent: a second call changes nothing, and after \<open>stop()\<close> the
  sequencer is not playing; when it was playing, the step cursor is 0, the timer handle is
  dropped and the interval is cleared. Neither \<open>stop()\<close> nor the \<open>stop\<close> closure of a voice has
  a throwing branch (the exception of \<open>node.stop\<close> is caught), and stopping a voice a second
  time leaves the set of voices of the synthesizer as the first call left it.
\<close>

theorem stop_idempotent:
  "stop (stop w) = stop w \<and>
   \<not> getIsPlaying (sequencer (stop w)) \<and>
   (isPlaying (sequencer w) \<longrightarrow>
      getCurrentStep (sequencer (stop w)) = 0 \<and> timerID (sequencer (stop w)) = None \<and>
      (\<forall>h. timerID (sequencer w) = Some h \<longrightarrow> h \<notin> intervals (window (stop w)))) \<and>
   voices (KickSynth_voice_stop v t2 (KickSynth_voice_stop v t1 s)) =
     voices (KickSynth_voice_stop v t1 s) \<and>
   \<not> voices_has v (voices (KickSynth_voice_stop v t1 s))"
  by (auto simp add: stop_def Let_def console_write_def clearInterval_def getIsPlaying_def
        getCurrentStep_def KickSynth_voice_stop_def voices_delete_def voices_has_def list_ex_iff
      split: option.splits)

theorem stop_idempotent_witness:
  "isPlaying (sequencer playingWorld) \<and> timerID (sequencer playingWorld) = Some 1 \<and>
   stop (stop playingWorld) = stop playingWorld \<and>
   \<not> getIsPlaying (sequencer (stop playingWorld)) \<and>
   getCurrentStep (sequencer (stop playingWorld)) = 0 \<and>
   timerID (sequencer (stop playingWorld)) = None \<and>
   1 \<notin> intervals (window (stop playingWorld)) \<and>
   voices_has kickVoice (voices kickSounding) \<and>
   voices (KickSynth_voice_stop kickVoice 1 (KickSynth_voice_stop kickVoice (1 / 2) kickSounding)) =
     voices (KickSynth_voice_stop kickVoice (1 / 2) kickSounding) \<and>
   \<not> voices_has kickVoice (voices (KickSynth_voice_stop kickVoice (1 / 2) kickSounding))"
proof -
  have playing: "isPlaying (sequencer playingWorld)" "timerID (sequencer playingWorld) = Some 1"
    by (simp_all add: playingWorld_def new_Sequencer_def)
  have sounding: "voices_has kickVoice (voices kickSounding)"
    by (simp add: kickSounding_def kickVoice_def KickSynth_trigger_def new_KickSynth_def
        KickSynth_defaultParameters_def paramOr_def getParameter_def voices_has_def Let_def)
  from playing sounding
    stop_idempotent [of playingWorld kickVoice 1 "1 / 2" kickSounding]
  show ?thesis by simp
qed

section \<open>Which tracks trigger, and with what\<close>

lemma engineKept_refl: "engineKept w w"
  by (simp add: engineKept_def)

lemma engineKept_trans: "engineKept w w' \<Longrightarrow> engineKept w' w'' \<Longrightarrow> engineKept w w''"
  by (simp add: engineKept_def)




lemma trackCallback_blocked:
  "\<not> eligible hs step track \<Longrightarrow> stateOf (trackCallback hs step track w) = w"
  by (auto simp add: trackCallback_def Let_def eligible_def)






lemma trackCallback_sequencer:
  "sequencer (stateOf (trackCallback hasSolo step track w)) = sequencer w"
  by (simp add: trackCallback_def Let_def Math_random_def triggerDrum_frame)


lemma forEach_frame:
  assumes "\<And>track w. g (stateOf (f track w)) = g w"
  shows "g (stateOf (forEach f ts w)) = g w"
proof (induction ts arbitrary: w)
  case Nil
  show ?case by simp
next
  case (Cons track rest)
  show ?case
  proof (cases "f track w")
    case (Returned w')
    with assms [of track w] have "g w' = g w" by simp
    with Cons Returned show ?thesis by simp
  next
    case (Thrown e w')
    with assms [of track w] show ?thesis by simp
  qed
qed

lemma scheduleStep_sequencer:
  "sequencer (stateOf (scheduleStep step time w)) = sequencer w"
proof (cases "pattern (sequencer w)")
  case None
  then show ?thesis by (simp add: scheduleStep_def)
next
  case (Some p)
  have "sequencer (stateOf (forEach (trackCallback hs step) ts w')) = sequencer w'" for hs ts w'
    by (rule forEach_frame) (rule trackCallback_sequencer)
  with Some show ?thesis
    by (simp add: scheduleStep_def Let_def setTimeout_def split: option.splits)
qed


text \<open>
  C6. Whenever the callback of a track sends a trigger, the velocity that the \<open>trigger\<close>
  method of the synthesizer receives is the velocity of the step divided by 127 and
  multiplied by the volume of the track (read as exact arithmetic).
\<close>

theorem effective_velocity:
  assumes "trackCallback hasSolo step track w = Returned w'"
      and "triggered (audioEngine w') \<noteq> triggered (audioEngine w)"
  shows "\<exists>c. triggered (audioEngine w') = triggered (audioEngine w) @ [c] \<and>
             trig_synth c = synthType track \<and>
             trig_velocity c = velocity (steps track ! step) / 127 * volume track"
  using assms
  by (auto simp add: trackCallback_def Let_def Math_random_def triggerDrum_def console_write_def
      split: if_splits option.splits)

theorem effective_velocity_witness:
  "trackCallback False 0 overrideTrack (idleWorld 0 (\<lambda>_. 1 / 2)) =
     Returned (stateOf (trackCallback False 0 overrideTrack (idleWorld 0 (\<lambda>_. 1 / 2)))) \<and>
   (\<exists>c. triggered (audioEngine (stateOf (trackCallback False 0 overrideTrack
            (idleWorld 0 (\<lambda>_. 1 / 2))))) = [c] \<and>
        trig_synth c = ''kick'' \<and> trig_velocity c = 100 / 127 * (4 / 5))"
proof -
  let ?w = "idleWorld 0 (\<lambda>_. 1 / 2)"
  let ?w' = "stateOf (trackCallback False 0 overrideTrack ?w)"
  have run: "trackCallback False 0 overrideTrack ?w = Returned ?w'"
    by (simp add: trackCallback_def overrideTrack_def defaultTrack_def stepOn_def stepOff_def
        Math_random_def idleWorld_def Let_def)
  have changed: "triggered (audioEngine ?w') \<noteq> triggered (audioEngine ?w)"
    by (simp add: trackCallback_def overrideTrack_def defaultTrack_def stepOn_def stepOff_def
        Math_random_def idleWorld_def readyEngine_def triggerDrum_def Let_def)
  have facts: "triggered (audioEngine ?w) = []" "synthType overrideTrack = ''kick''"
    "velocity (steps overrideTrack ! 0) = 100" "volume overrideTrack = 4 / 5"
    by (simp_all add: idleWorld_def readyEngine_def overrideTrack_def defaultTrack_def
        stepOn_def stepOff_def)
  from effective_velocity [OF run changed] facts run show ?thesis by simp
qed

text \<open>
  C9. Scheduling a step leaves the sequencer, and with it the pattern and the
  \<open>synthParams\<close> of every track, as they were. The parameters that a trigger passes to the
  engine are a fresh mapping: key by key the override of the step where the step has one, and
  the value of the track otherwise; a step without overrides passes the parameters of the
  track.
\<close>

theorem override_isolation:
  assumes "trackCallback hasSolo step track w = Returned w'"
      and "triggered (audioEngine w') \<noteq> triggered (audioEngine w)"
  shows "sequencer w' = sequencer w \<and>
         sequencer (stateOf (scheduleStep step' time w0)) = sequencer w0 \<and>
         (\<exists>c. triggered (audioEngine w') = triggered (audioEngine w) @ [c] \<and>
              (\<forall>k. trig_params c k =
                 (case parameters (steps track ! step) of
                    None \<Rightarrow> synthParams track k
                  | Some ov \<Rightarrow> (case ov k of Some v \<Rightarrow> Some v | None \<Rightarrow> synthParams track k))) \<and>
              (parameters (steps track ! step) = None \<longrightarrow> trig_params c = synthParams track))"
proof -
  from assms(1) trackCallback_sequencer [of hasSolo step track w]
  have "sequencer w' = sequencer w" by simp
  moreover from assms
  have "\<exists>c. triggered (audioEngine w') = triggered (audioEngine w) @ [c] \<and>
              (\<forall>k. trig_params c k =
                 (case parameters (steps track ! step) of
                    None \<Rightarrow> synthParams track k
                  | Some ov \<Rightarrow> (case ov k of Some v \<Rightarrow> Some v | None \<Rightarrow> synthParams track k))) \<and>
              (parameters (steps track ! step) = None \<longrightarrow> trig_params c = synthParams track)"
    by (auto simp add: trackCallback_def Let_def Math_random_def triggerDrum_def console_write_def
        map_add_def split: if_splits option.splits)
  ultimately show ?thesis by (simp add: scheduleStep_sequencer)
qed

theorem override_isolation_witness:
  "(\<exists>w1 w2 c1 c2.
      trackCallback False 0 overrideTrack (idleWorld 0 (\<lambda>_. 1 / 2)) = Returned w1 \<and>
      trackCallback False 1 overrideTrack w1 = Returned w2 \<and>
      triggered (audioEngine w2) = [c1, c2] \<and>
      trig_params c1 ''pitch'' = Some 999 \<and> trig_params c1 ''decay'' = Some (1 / 2) \<and>
      synthParams overrideTrack ''pitch'' = Some 60 \<and>
      trig_params c2 = synthParams overrideTrack \<and>
      sequencer w2 = sequencer (idleWorld 0 (\<lambda>_. 1 / 2)))"
proof -
  let ?w = "idleWorld 0 (\<lambda>_. 1 / 2)"
  let ?w1 = "stateOf (trackCallback False 0 overrideTrack ?w)"
  let ?w2 = "stateOf (trackCallback False 1 overrideTrack ?w1)"
  have run1: "trackCallback False 0 overrideTrack ?w = Returned ?w1"
    by (simp add: trackCallback_def overrideTrack_def defaultTrack_def stepOn_def stepOff_def
        Math_random_def idleWorld_def Let_def)
  have run2: "trackCallback False 1 overrideTrack ?w1 = Returned ?w2"
    by (simp add: trackCallback_def overrideTrack_def defaultTrack_def stepOn_def stepOff_def
        Math_random_def idleWorld_def readyEngine_def triggerDrum_def Let_def)
  have changed1: "triggered (audioEngine ?w1) \<noteq> triggered (audioEngine ?w)"
    by (simp add: trackCallback_def overrideTrack_def defaultTrack_def stepOn_def stepOff_def
        Math_random_def idleWorld_def readyEngine_def triggerDrum_def Let_def)
  have changed2: "triggered (audioEngine ?w2) \<noteq> triggered (audioEngine ?w1)"
    by (simp add: trackCallback_def overrideTrack_def defaultTrack_def stepOn_def stepOff_def
        Math_random_def idleWorld_def readyEngine_def triggerDrum_def Let_def)
  have facts: "triggered (audioEngine ?w) = []"
    "parameters (steps overrideTrack ! 0) = Some [''pitch'' \<mapsto> 999]"
    "parameters (steps overrideTrack ! 1) = None"
    "synthParams overrideTrack ''pitch'' = Some 60"
    "synthParams overrideTrack ''decay'' = Some (1 / 2)"
    by (simp_all add: idleWorld_def readyEngine_def overrideTrack_def defaultTrack_def
        stepOn_def stepOff_def)
  from override_isolation [OF run1 changed1]
  obtain c1 where raw1: "sequencer ?w1 = sequencer ?w"
      "triggered (audioEngine ?w1) = triggered (audioEngine ?w) @ [c1]"
      "\<forall>k. trig_params c1 k =
         (case parameters (steps overrideTrack ! 0) of
            None \<Rightarrow> synthParams overrideTrack k
          | Some ov \<Rightarrow> (case ov k of Some v \<Rightarrow> Some v | None \<Rightarrow> synthParams overrideTrack k))"
    by blast
  from raw1(3) facts have p1: "trig_params c1 ''pitch'' = Some 999"
    "trig_params c1 ''decay'' = Some (1 / 2)"
    by simp_all
  from override_isolation [OF run2 changed2]
  obtain c2 where raw2: "sequencer ?w2 = sequencer ?w1"
      "triggered (audioEngine ?w2) = triggered (audioEngine ?w1) @ [c2]"
      "parameters (steps overrideTrack ! 1) = None \<longrightarrow> trig_params c2 = synthParams overrideTrack"
    by blast
  from raw1 raw2 facts have c2: "triggered (audioEngine ?w2) = [c1, c2]"
    "sequencer ?w2 = sequencer ?w" "trig_params c2 = synthParams overrideTrack"
    by simp_all
  note c1 = p1
  from run1 run2 c1 c2 facts show ?thesis by blast
qed

text \<open>
  C5 (the case the code misses). \<open>Math.random()\<close> may return 0, and the test
  \<open>Math.random() > stepData.probability\<close> lets a draw of 0 pass a probability of 0: the step
  triggers.
\<close>

theorem probability_zero_triggers_on_zero_draw:
  "probability (steps zeroProbabilityTrack ! 0) = 0 \<and>
   randoms (window (idleWorld 0 (\<lambda>_. 0))) (drawn (window (idleWorld 0 (\<lambda>_. 0)))) = 0 \<and>
   map trig_synth (triggered (audioEngine (stateOf
      (trackCallback False 0 zeroProbabilityTrack (idleWorld 0 (\<lambda>_. 0)))))) = [''kick'']"
  by (simp add: trackCallback_def zeroProbabilityTrack_def defaultTrack_def stepOn_def stepOff_def
      Math_random_def idleWorld_def readyEngine_def triggerDrum_def Let_def)

text \<open>The rest of C5 holds: a probability of 1 passes every draw below 1, and a probability
  of 0 stops every positive draw.\<close>

lemma probability_one_always_triggers:
  assumes "step < length (steps track)" "active (steps track ! step)" "\<not> mute track"
      and "hasSolo \<longrightarrow> solo track"
      and "probability (steps track ! step) = 1"
      and "randoms (window w) (drawn (window w)) < 1"
      and "audioContext (audioEngine w) \<noteq> None" "initialized (audioEngine w)"
      and "synthType track \<in> synths (audioEngine w)"
  shows "\<exists>c. triggered (audioEngine (stateOf (trackCallback hasSolo step track w))) =
             triggered (audioEngine w) @ [c]"
  using assms by (auto simp add: trackCallback_def Let_def Math_random_def triggerDrum_def)

lemma probability_zero_positive_draw:
  assumes "probability (steps track ! step) = 0"
      and "0 < randoms (window w) (drawn (window w))"
  shows "triggered (audioEngine (stateOf (trackCallback hasSolo step track w))) =
           triggered (audioEngine w)"
  using assms by (auto simp add: trackCallback_def Let_def Math_random_def triggerDrum_def)

section \<open>The scheduling loop\<close>

lemma nextStep_time:
  assumes "pattern s = Some p"
  shows "nextStepTime (nextStep s) =
           nextStepTime s + 15 / bpm p +
           (if odd (currentStep s) \<and> 0 < swing p then 15 / bpm p * swing p / 2 else 0)"
    and "currentStep (nextStep s) = (currentStep s + 1) mod stepCount p"
    and "pattern (nextStep s) = pattern s"
    and "isPlaying (nextStep s) = isPlaying s"
    and "scheduleAheadTime (nextStep s) = scheduleAheadTime s"
    and "timerID (nextStep s) = timerID s"
    and "onStepCallback (nextStep s) = onStepCallback s"
  using assms by (simp_all add: nextStep_def Let_def odd_iff_mod_2_eq_one)





lemmas scheduleLoop_induct = scheduleLoop.raw_induct [rotated 1, consumes 1, case_names step]










section \<open>Timing of a playback run\<close>

lemma kickPattern_fields:
  "bpm kickPattern = 120" "swing kickPattern = 0" "stepCount kickPattern = 16"
  "bpm swingPattern = 120" "swing swingPattern = 3 / 5" "stepCount swingPattern = 16"
  "tracks swingPattern = tracks kickPattern"
  by (simp_all add: kickPattern_def swingPattern_def)

lemma kickPattern_tracks:
  "tracks kickPattern =
        [kickTrack,
         defaultTrack ''1'' ''Snare'' ''snare'' 0.8 silent16
           [''pitch'' \<mapsto> 200, ''decay'' \<mapsto> 0.15, ''tone'' \<mapsto> 0.5],
         defaultTrack ''2'' ''Closed HH'' ''hihat'' 0.6 silent16
           [''pitch'' \<mapsto> 8000, ''decay'' \<mapsto> 0.05, ''tone'' \<mapsto> 0.7],
         defaultTrack ''3'' ''Open HH'' ''hihat'' 0.5 silent16
           [''pitch'' \<mapsto> 8000, ''decay'' \<mapsto> 0.15, ''tone'' \<mapsto> 0.6],
         defaultTrack ''4'' ''Clap'' ''clap'' 0.7 silent16
           [''pitch'' \<mapsto> 1000, ''decay'' \<mapsto> 0.1, ''tone'' \<mapsto> 0.6],
         defaultTrack ''5'' ''Rim'' ''rim'' 0.7 silent16
           [''pitch'' \<mapsto> 400, ''decay'' \<mapsto> 0.08, ''tone'' \<mapsto> 0.7],
         defaultTrack ''6'' ''Tom'' ''tom'' 0.8 silent16
           [''pitch'' \<mapsto> 150, ''decay'' \<mapsto> 0.4, ''tone'' \<mapsto> 0.5],
         defaultTrack ''7'' ''Perc'' ''perc1'' 0.6 silent16
           [''pitch'' \<mapsto> 300, ''decay'' \<mapsto> 0.12, ''tone'' \<mapsto> 0.5]]"
  by (simp add: kickPattern_def)

lemmas playback_eval =
  playback_def start_def schedule_def scheduleLoop.simps scheduleStep_def trackCallback_def
  nextStep_def triggerDrum_def Math_random_def setInterval_def setTimeout_def console_write_def
  isInitialized_def getCurrentTime_def new_Sequencer_def idleWorld_def readyEngine_def
  kickPattern_fields kickPattern_tracks kickTrack_def defaultTrack_def silent16_def
  fourOnTheFloor16_def stepOn_def stepOff_def clockAt_def intervalCallback_def Let_def

text \<open>
  C2 (what the code does instead). At 120 bpm a step lasts 1/8 s and a swing of 0.6 gives
  an offset of 3/80 s. \<open>nextStep\<close> adds the offset when it leaves an odd step, so the odd step
  1 is scheduled at 1/8 s, its time without swing, and the even step 2 at 23/80 s instead of
  1/4 s.
\<close>

theorem swing_delays_the_step_after_an_odd_step:
  "scheduledTimes (playback kickPattern None [1 / 5] (idleWorld 0 (\<lambda>_. 1 / 2))) =
     Some [(0, 0), (1, 1 / 8), (2, 1 / 4)] \<and>
   scheduledTimes (playback swingPattern None [1 / 5] (idleWorld 0 (\<lambda>_. 1 / 2))) =
     Some [(0, 0), (1, 1 / 8), (2, 23 / 80)]"
  by (simp add: scheduledTimes_def playback_eval)

text \<open>In general the accumulator reaches step \<open>k\<close> of the first cycle after \<open>k\<close> step
  lengths and \<open>k div 2\<close> swing offsets: the offsets pile up and no step comes back to the
  grid.\<close>

lemma accumulator_after:
  assumes "pattern s = Some p" "currentStep s = 0" "k \<le> stepCount p" "0 < swing p"
  shows "nextStepTime ((nextStep ^^ k) s) =
           nextStepTime s + real k * (15 / bpm p) + real (k div 2) * (15 / bpm p * swing p / 2) \<and>
         currentStep ((nextStep ^^ k) s) = k mod stepCount p \<and>
         pattern ((nextStep ^^ k) s) = Some p"
  using assms(3)
proof (induction k)
  case 0
  with assms show ?case by simp
next
  case (Suc k)
  then have IH: "nextStepTime ((nextStep ^^ k) s) =
           nextStepTime s + real k * (15 / bpm p) + real (k div 2) * (15 / bpm p * swing p / 2)"
    "currentStep ((nextStep ^^ k) s) = k" "pattern ((nextStep ^^ k) s) = Some p"
    by simp_all
  have half: "real (Suc k div 2) = real (k div 2) + (if odd k then 1 else 0)"
    by (cases "odd k") (auto elim!: oddE)
  from IH assms(4) show ?case
    by (simp add: nextStep_time half algebra_simps add_divide_distrib)
qed

text \<open>
  C1 (what the code does instead). The kick pattern of the specification at 120 bpm, started
  at clock time 0 with a timer that fires every 25 ms: \<open>scheduleStep\<close> is called with the
  step times 0, 1/8, 2/8, ... of the accumulator, but \<open>triggerDrum\<close> is not given that time and
  triggers at the clock time of the tick, so the four kicks sound at 0, 17/40, 37/40 and
  57/40 s.
\<close>

theorem four_on_the_floor_triggers_at_tick_times:
  "map_option (\<lambda>out. (scheduled (stateOf out),
                       map (\<lambda>c. (trig_synth c, trig_time c)) (triggered (audioEngine (stateOf out)))))
     (playback kickPattern None (tickTimes 60) (idleWorld 0 (\<lambda>_. 1 / 2))) =
   Some ([(0, 0), (1, 1 / 8), (2, 1 / 4), (3, 3 / 8), (4, 1 / 2), (5, 5 / 8), (6, 3 / 4),
          (7, 7 / 8), (8, 1), (9, 9 / 8), (10, 5 / 4), (11, 11 / 8), (12, 3 / 2)],
         [(''kick'', 0), (''kick'', 17 / 40), (''kick'', 37 / 40), (''kick'', 57 / 40)])"
  by (simp add: playback_eval tickTimes_def upt_rec)

text \<open>In general every trigger that a pass of \<open>schedule\<close> sends carries the clock time of
  that pass, whatever step time the accumulator holds.\<close>

lemma sentAt_refl: "sentAt now w w"
  by (simp add: sentAt_def)

lemma sentAt_trans: "sentAt now w w' \<Longrightarrow> sentAt now w' w'' \<Longrightarrow> sentAt now w w''"
  by (auto simp add: sentAt_def)

lemma sentAt_clock: "sentAt now w w' \<Longrightarrow> getCurrentTime (audioEngine w') = getCurrentTime (audioEngine w)"
  by (simp add: sentAt_def getCurrentTime_def)

lemma trackCallback_sentAt:
  assumes "getCurrentTime (audioEngine w) = now"
  shows "sentAt now w (stateOf (trackCallback hasSolo step track w))"
  using assms
  by (auto simp add: sentAt_def trackCallback_def Let_def Math_random_def triggerDrum_def
      console_write_def getCurrentTime_def split: option.splits)

lemma forEach_sentAt:
  assumes "getCurrentTime (audioEngine w) = now"
  shows "sentAt now w (stateOf (forEach (trackCallback hasSolo step) ts w))"
  using assms
proof (induction ts arbitrary: w)
  case Nil
  show ?case by (simp add: sentAt_refl)
next
  case (Cons track rest)
  from Cons.prems have first: "sentAt now w (stateOf (trackCallback hasSolo step track w))"
    by (rule trackCallback_sentAt)
  show ?case
  proof (cases "trackCallback hasSolo step track w")
    case (Thrown e w')
    with first show ?thesis by simp
  next
    case (Returned w')
    with first have "sentAt now w w'" by simp
    moreover from this Cons.prems have "getCurrentTime (audioEngine w') = now"
      by (simp add: sentAt_clock)
    then have "sentAt now w' (stateOf (forEach (trackCallback hasSolo step) rest w'))"
      by (rule Cons.IH)
    ultimately show ?thesis using Returned by (auto intro: sentAt_trans)
  qed
qed

lemma scheduleStep_sentAt:
  assumes "getCurrentTime (audioEngine w) = now"
  shows "sentAt now w (stateOf (scheduleStep step time w))"
proof (cases "pattern (sequencer w)")
  case None
  then show ?thesis by (simp add: scheduleStep_def sentAt_refl)
next
  case (Some p)
  define w1 where "w1 = (let w0 = w\<lparr>scheduled := scheduled w @ [(step, time)]\<rparr> in
       case onStepCallback (sequencer w0) of
                      None \<Rightarrow> w0
                    | Some cb \<Rightarrow>
                        let uiDelay = max 0 ((time - getCurrentTime (audioEngine w0)) * 1000 - 10)
                        in setTimeout step uiDelay w0)"
  have a: "sentAt now w w1"
    by (simp add: w1_def sentAt_def setTimeout_def Let_def split: option.splits)
  with assms have "getCurrentTime (audioEngine w1) = now" by (simp add: sentAt_clock)
  then have "sentAt now w1 (stateOf (forEach (trackCallback (list_ex solo (tracks p)) step) (tracks p) w1))"
    by (rule forEach_sentAt)
  with a have "sentAt now w (stateOf (forEach (trackCallback (list_ex solo (tracks p)) step) (tracks p) w1))"
    by (rule sentAt_trans)
  with Some show ?thesis by (simp add: scheduleStep_def w1_def Let_def)
qed

lemma scheduleLoop_sentAt:
  assumes "scheduleLoop now w = Some out" "getCurrentTime (audioEngine w) = now"
  shows "sentAt now w (stateOf out)"
  using assms
proof (induction rule: scheduleLoop_induct)
  case (step loop now w out)
  show ?case
  proof (cases "nextStepTime (sequencer w) < now + scheduleAheadTime (sequencer w)")
    case False
    with step(2) show ?thesis by (auto simp add: sentAt_refl)
  next
    case True
    let ?r = "scheduleStep (currentStep (sequencer w)) (nextStepTime (sequencer w)) w"
    from step(3) have one: "sentAt now w (stateOf ?r)" by (rule scheduleStep_sentAt)
    show ?thesis
    proof (cases ?r)
      case (Thrown e w')
      with True step(2) one show ?thesis by auto
    next
      case (Returned w')
      let ?w'' = "w'\<lparr>sequencer := nextStep (sequencer w')\<rparr>"
      from Returned one have "sentAt now w w'" by simp
      then have a: "sentAt now w ?w''" by (simp add: sentAt_def)
      from sentAt_clock [OF a] step(3) have "getCurrentTime (audioEngine ?w'') = now" by simp
      moreover from True Returned step(2) have "loop now ?w'' = Some out" by simp
      ultimately have "sentAt now ?w'' (stateOf out)" by (rule step(1) [rotated])
      with a show ?thesis by (rule sentAt_trans)
    qed
  qed
qed

lemma schedule_triggers_at_clock:
  assumes "schedule w = Some out"
  shows "\<exists>new. triggered (audioEngine (stateOf out)) = triggered (audioEngine w) @ new \<and>
               (\<forall>c \<in> set new. trig_time c = getCurrentTime (audioEngine w))"
proof (cases "pattern (sequencer w) = None \<or> \<not> isPlaying (sequencer w)")
  case True
  with assms show ?thesis by (auto simp add: schedule_def)
next
  case False
  with assms have "scheduleLoop (getCurrentTime (audioEngine w)) w = Some out"
    by (simp add: schedule_def)
  then have "sentAt (getCurrentTime (audioEngine w)) w (stateOf out)"
    by (rule scheduleLoop_sentAt) simp
  then show ?thesis by (simp add: sentAt_def)
qed

section \<open>The choke groups of the hi-hat\<close>

lemma nodes_forEach_get:
  "nodes_forEach f ids h j =
     (case h j of None \<Rightarrow> None | Some n \<Rightarrow> Some ((f ^^ count_list ids j) n))"
proof (induction ids arbitrary: h)
  case Nil
  show ?case by (simp add: nodes_forEach_def split: option.splits)
next
  case (Cons i ids)
  let ?h = "case h i of None \<Rightarrow> h | Some node \<Rightarrow> h(i \<mapsto> f node)"
  have "nodes_forEach f (i # ids) h j = nodes_forEach f ids ?h j"
    by (simp add: nodes_forEach_def)
  also have "\<dots> = (case ?h j of None \<Rightarrow> None | Some n \<Rightarrow> Some ((f ^^ count_list ids j) n))"
    by (rule Cons.IH)
  also have "\<dots> = (case h j of None \<Rightarrow> None | Some n \<Rightarrow> Some ((f ^^ count_list (i # ids) j) n))"
    by (auto simp add: funpow_swap1 split: option.splits)
  finally show ?case .
qed

lemma stopNode_idem: "stopNode t (stopNode t n) = stopNode t n"
  by (simp add: stopNode_def disconnect_def AudioScheduledSourceNode_stop_def Let_def)

lemma stopNode_funpow: "(stopNode t ^^ Suc k) n = stopNode t n"
  by (induction k) (simp_all add: stopNode_idem)

lemma stopNode_started:
  "scheduledSource (stopNode t n) = scheduledSource n" "started (stopNode t n) = started n"
  "outputs (stopNode t n) = {}"
  "scheduledSource n \<Longrightarrow> started n \<noteq> None \<Longrightarrow> 0 \<le> t \<Longrightarrow> stopped (stopNode t n) = Some t"
  by (auto simp add: stopNode_def disconnect_def AudioScheduledSourceNode_stop_def Let_def)

lemma stop_nodes_outside:
  "j \<notin> set ids \<Longrightarrow> nodes_forEach f ids h j = h j"
  by (simp add: nodes_forEach_get split: option.splits)

lemma stop_nodes_inside:
  assumes "j \<in> set ids" "h j = Some n"
  shows "nodes_forEach (stopNode t) ids h j = Some (stopNode t n)"
proof -
  from assms(1) obtain k where "count_list ids j = Suc k"
    by (metis count_list_0_iff not0_implies_Suc)
  with assms(2) show ?thesis by (simp add: nodes_forEach_get stopNode_funpow del: funpow.simps)
qed

lemma stop_nodes_keeps:
  assumes "h j = Some n" "scheduledSource n \<longrightarrow> started n \<noteq> None"
  shows "\<exists>n'. nodes_forEach (stopNode t) ids h j = Some n' \<and> (scheduledSource n' \<longrightarrow> started n' \<noteq> None)"
proof (cases "j \<in> set ids")
  case True
  with assms show ?thesis by (simp add: stop_nodes_inside stopNode_started)
next
  case False
  with assms show ?thesis by (simp add: stop_nodes_outside)
qed

lemma known_unique:
  assumes "distinct (map (\<lambda>e. voiceId (snd e)) (cleanups s))" "u \<in> known s" "v \<in> known s"
      and "voiceId u = voiceId v"
  shows "u = v"
proof -
  from assms(2,3) obtain a b where ab: "a \<in> set (cleanups s)" "b \<in> set (cleanups s)"
    "u = snd a" "v = snd b"
    by (auto simp add: known_def)
  from assms(1) have "inj_on (\<lambda>e. voiceId (snd e)) (set (cleanups s))"
    by (simp add: distinct_map)
  with ab assms(4) have "a = b" by (auto dest: inj_onD)
  with ab show ?thesis by simp
qed

lemma chokeInvD:
  assumes "chokeInv s"
  shows "distinct (map (\<lambda>e. voiceId (snd e)) (cleanups s))"
    and "\<And>v. v \<in> known s \<Longrightarrow> voiceId v < nextId s"
    and "\<And>v i. v \<in> known s \<Longrightarrow> i \<in> set (nodes v) \<Longrightarrow> i < nextId s"
    and "\<And>u v. u \<in> known s \<Longrightarrow> v \<in> known s \<Longrightarrow> u \<noteq> v \<Longrightarrow> set (nodes u) \<inter> set (nodes v) = {}"
    and "set (voices s) \<subseteq> known s"
    and "distinct (map voiceId (voices s))"
    and "\<And>v. v \<in> set (voices s) \<Longrightarrow> \<exists>g. chokeGroup v = Some g \<and> activeChokeGroup s g = Some v"
    and "\<And>g v. activeChokeGroup s g = Some v \<Longrightarrow> v \<in> set (voices s) \<and> chokeGroup v = Some g"
    and "\<And>v i. v \<in> set (voices s) \<Longrightarrow> i \<in> set (nodes v) \<Longrightarrow>
           \<exists>n. heap s i = Some n \<and> (scheduledSource n \<longrightarrow> started n \<noteq> None)"
  using assms unfolding chokeInv_def by blast+

lemma voices_delete_set:
  assumes "distinct (map voiceId vs)" "v \<in> set vs"
  shows "set (voices_delete v vs) = set vs - {v}"
proof -
  from assms(1) have "inj_on voiceId (set vs)" by (simp add: distinct_map)
  with assms(2) have "\<And>x. x \<in> set vs \<Longrightarrow> (voiceId x \<noteq> voiceId v) = (x \<noteq> v)"
    by (auto dest: inj_onD)
  then show ?thesis by (auto simp add: voices_delete_def)
qed

lemma voices_delete_distinct:
  "distinct (map voiceId vs) \<Longrightarrow> distinct (map voiceId (voices_delete v vs))"
  by (simp add: voices_delete_def distinct_map_filter)

lemma voice_stop_eq:
  assumes "chokeInv s" "v \<in> set (voices s)" "chokeGroup v = Some g"
  shows "HiHatSynth_voice_stop v t s =
           s\<lparr>heap := nodes_forEach (stopNode t) (nodes v) (heap s),
             voices := voices_delete v (voices s),
             activeChokeGroup := (activeChokeGroup s)(g := None)\<rparr>"
proof -
  from chokeInvD(7) [OF assms(1,2)] assms(3) have "activeChokeGroup s g = Some v" by auto
  with assms(3) show ?thesis by (simp add: HiHatSynth_voice_stop_def Let_def)
qed

lemma voice_stop_inv:
  assumes inv: "chokeInv s" and v: "v \<in> set (voices s)"
  shows "chokeInv (HiHatSynth_voice_stop v t s)"
proof -
  from chokeInvD(7) [OF inv v] obtain g where g: "chokeGroup v = Some g"
    "activeChokeGroup s g = Some v" by auto
  let ?s = "s\<lparr>heap := nodes_forEach (stopNode t) (nodes v) (heap s),
             voices := voices_delete v (voices s),
             activeChokeGroup := (activeChokeGroup s)(g := None)\<rparr>"
  have eq: "HiHatSynth_voice_stop v t s = ?s" using inv v g(1) by (rule voice_stop_eq)
  have vs: "set (voices ?s) = set (voices s) - {v}"
    using chokeInvD(6) [OF inv] v by (simp add: voices_delete_set)
  have kn: "known ?s = known s" by (simp add: known_def)
  have "chokeInv ?s"
    unfolding chokeInv_def
  proof (intro conjI ballI allI impI)
    show "distinct (map (\<lambda>e. voiceId (snd e)) (cleanups ?s))"
      using chokeInvD(1) [OF inv] by simp
  next
    fix u assume "u \<in> known ?s"
    then show "voiceId u < nextId ?s" using chokeInvD(2) [OF inv] by (simp add: kn)
  next
    fix u i assume "u \<in> known ?s" "i \<in> set (nodes u)"
    then show "i < nextId ?s" using chokeInvD(3) [OF inv] by (simp add: kn)
  next
    fix u w assume "u \<in> known ?s" "w \<in> known ?s" "u \<noteq> w"
    then show "set (nodes u) \<inter> set (nodes w) = {}" using chokeInvD(4) [OF inv] by (simp add: kn)
  next
    show "set (voices ?s) \<subseteq> known ?s" using chokeInvD(5) [OF inv] vs kn by auto
  next
    show "distinct (map voiceId (voices ?s))"
      using chokeInvD(6) [OF inv] by (simp add: voices_delete_distinct)
  next
    fix u assume "u \<in> set (voices ?s)"
    with vs have u: "u \<in> set (voices s)" "u \<noteq> v" by auto
    from chokeInvD(7) [OF inv u(1)] obtain g' where g': "chokeGroup u = Some g'"
      "activeChokeGroup s g' = Some u" by auto
    with g u(2) have "g' \<noteq> g" by auto
    with g' show "\<exists>g. chokeGroup u = Some g \<and> activeChokeGroup ?s g = Some u" by simp
  next
    fix g' u assume a: "activeChokeGroup ?s g' = Some u"
    then have ne: "g' \<noteq> g" and old: "activeChokeGroup s g' = Some u"
      by (auto split: if_splits)
    from chokeInvD(8) [OF inv old] have u: "u \<in> set (voices s)" "chokeGroup u = Some g'" by auto
    with ne g have "u \<noteq> v" by auto
    with u vs show "u \<in> set (voices ?s)" "chokeGroup u = Some g'" by auto
  next
    fix u i assume "u \<in> set (voices ?s)" "i \<in> set (nodes u)"
    with vs have "u \<in> set (voices s)" "i \<in> set (nodes u)" by auto
    from chokeInvD(9) [OF inv this] obtain n where "heap s i = Some n"
      "scheduledSource n \<longrightarrow> started n \<noteq> None" by auto
    then show "\<exists>n. heap ?s i = Some n \<and> (scheduledSource n \<longrightarrow> started n \<noteq> None)"
      using stop_nodes_keeps [of "heap s" i n t "nodes v"] by simp
  qed
  with eq show ?thesis by simp
qed

lemma chokePrevious_choked:
  assumes inv: "chokeInv s"
  shows "choked g t s (chokePrevious g t s)"
proof (cases "activeChokeGroup s g")
  case None
  then have eq: "chokePrevious g t s = s" by (simp add: chokePrevious_def)
  have none: "\<And>v. v \<in> set (voices s) \<Longrightarrow> chokeGroup v \<noteq> Some g"
    using chokeInvD(7) [OF inv] None by force
  with inv None show ?thesis by (auto simp add: choked_def eq)
next
  case (Some p)
  from chokeInvD(8) [OF inv Some] have p: "p \<in> set (voices s)" "chokeGroup p = Some g" by auto
  let ?s = "s\<lparr>heap := nodes_forEach (stopNode t) (nodes p) (heap s),
             voices := voices_delete p (voices s),
             activeChokeGroup := (activeChokeGroup s)(g := None)\<rparr>"
  have stop: "HiHatSynth_voice_stop p t s = ?s" using inv p by (rule voice_stop_eq)
  with Some have eq: "chokePrevious g t s = ?s" by (simp add: chokePrevious_def Let_def)
  from voice_stop_inv [OF inv p(1), of t] stop have inv': "chokeInv ?s" by simp
  have only: "\<And>v. v \<in> set (voices s) \<Longrightarrow> (chokeGroup v = Some g) = (v = p)"
    using chokeInvD(7) [OF inv] Some p by force
  have vs: "set (voices ?s) = set (voices s) - {p}"
    using chokeInvD(6) [OF inv] p by (simp add: voices_delete_set)
  with only have vs': "set (voices ?s) = {v \<in> set (voices s). chokeGroup v \<noteq> Some g}"
    by auto
  have other: "heap ?s i = heap s i"
    if "v \<in> set (voices s)" "chokeGroup v \<noteq> Some g" "i \<in> set (nodes v)" for v i
  proof -
    from that only have "v \<noteq> p" by auto
    with chokeInvD(4) [OF inv, of v p] chokeInvD(5) [OF inv] that p
    have "i \<notin> set (nodes p)" by auto
    then show ?thesis by (simp add: stop_nodes_outside)
  qed
  have same: "\<exists>n. heap s i = Some n \<and> heap ?s i = Some (stopNode t n)"
    if "v \<in> set (voices s)" "chokeGroup v = Some g" "i \<in> set (nodes v)" for v i
  proof -
    from that only have vp: "v = p" by auto
    from chokeInvD(9) [OF inv that(1,3)] obtain n where "heap s i = Some n" by auto
    with that(3) vp show ?thesis by (simp add: stop_nodes_inside)
  qed
  have "choked g t s ?s"
    unfolding choked_def
  proof (intro conjI ballI)
    show "chokeInv ?s" by (rule inv')
    show "set (voices ?s) = {v \<in> set (voices s). chokeGroup v \<noteq> Some g}" by (rule vs')
    fix v i assume "v \<in> set (voices s)" "i \<in> set (nodes v)"
    with other [of v i] same [of v i]
    show "if chokeGroup v = Some g
        then (\<exists>n. heap s i = Some n \<and> heap ?s i = Some (stopNode t n))
        else heap ?s i = heap s i"
      by (cases "chokeGroup v = Some g") simp_all
  qed simp_all
  with eq show ?thesis by simp
qed

lemma chokePrevious_noiseBuffer: "noiseBuffer (chokePrevious g t s) = noiseBuffer s"
  by (simp add: chokePrevious_def HiHatSynth_voice_stop_def Let_def split: option.splits)

lemma trigger_skipped:
  assumes "triggerSkips time params s"
  shows "stateOf (HiHatSynth_trigger time vel params s) =
           chokePrevious (triggerGroup params s) time s"
  using assms
  by (auto simp add: triggerSkips_def HiHatSynth_trigger_def Let_def triggerGroup_def
      chokePrevious_noiseBuffer)

lemma trigger_added:
  assumes "\<not> triggerSkips time params s"
  shows "HiHatSynth_trigger time vel params s =
           Returned (stateOf (HiHatSynth_trigger time vel params s))"
    and "voiceAdded (triggerGroup params s) time (chokePrevious (triggerGroup params s) time s)
           (stateOf (HiHatSynth_trigger time vel params s))"
proof -
  define g where "g = triggerGroup params s"
  define s1 where "s1 = chokePrevious g time s"
  define decay where "decay = paramOr params ''decay'' (getParameter ''decay'' 0.05 s)"
  have g': "paramOr params ''chokeGroup'' (getParameter ''chokeGroup'' 0 s) = g"
    by (simp add: g_def triggerGroup_def)
  from assms have False: "\<not> (\<not> noiseBuffer s1 \<or> time < 0 \<or>
       time + paramOr params ''decay'' (getParameter ''decay'' 0.05 s) < 0)"
    by (simp add: triggerSkips_def s1_def g_def chokePrevious_noiseBuffer)
  let ?s' = "stateOf (HiHatSynth_trigger time vel params s)"
  from False show ret: "HiHatSynth_trigger time vel params s = Returned ?s'"
    by (simp add: HiHatSynth_trigger_def Let_def g' s1_def [symmetric])
  let ?nv = "newVoice g time (time + decay + 0.05) (nextId s1)"
  let ?d = "(time + decay + 0.05 - currentTime (synthContext s1)) * 1000 + 100"
  from False have 1: "voices ?s' = voices s1 @ [?nv]"
    by (simp add: HiHatSynth_trigger_def Let_def g' s1_def [symmetric] decay_def newVoice_def)
  from False have 2: "cleanups ?s' = cleanups s1 @ [(?d, ?nv)]"
    by (simp add: HiHatSynth_trigger_def Let_def g' s1_def [symmetric] decay_def newVoice_def)
  from False have 3: "activeChokeGroup ?s' = (activeChokeGroup s1)(g \<mapsto> ?nv)"
    by (simp add: HiHatSynth_trigger_def Let_def g' s1_def [symmetric] decay_def newVoice_def)
  from False have 4: "nextId ?s' = nextId s1 + 8"
    by (simp add: HiHatSynth_trigger_def Let_def g' s1_def [symmetric] decay_def)
  from False have 5: "\<forall>i. i < nextId s1 \<longrightarrow> heap ?s' i = heap s1 i"
    by (simp add: HiHatSynth_trigger_def Let_def g' s1_def [symmetric] decay_def)
  from False have 6: "\<forall>i \<in> set (nodes ?nv).
             \<exists>n. heap ?s' i = Some n \<and> (scheduledSource n \<longrightarrow> started n \<noteq> None)"
    by (simp add: HiHatSynth_trigger_def Let_def g' s1_def [symmetric] decay_def newVoice_def)
  from 1 2 3 4 5 6 have "voiceAdded g time s1 ?s'"
    unfolding voiceAdded_def by blast
  then show "voiceAdded (triggerGroup params s) time (chokePrevious (triggerGroup params s) time s) ?s'"
    by (simp add: s1_def g_def)
qed

lemma newVoice_simps:
  "voiceId (newVoice g time e b) = b + 7" "chokeGroup (newVoice g time e b) = Some g"
  "startTime (newVoice g time e b) = time"
  "i \<in> set (nodes (newVoice g time e b)) \<longleftrightarrow> b \<le> i \<and> i < b + 7"
  by (auto simp add: newVoice_def)

lemma voiceAdded_inv:
  assumes ch: "choked g t s s1" and add: "voiceAdded g time s1 s'"
  shows "chokeInv s'"
proof -
  from ch have inv: "chokeInv s1" and free: "activeChokeGroup s1 g = None"
    by (simp_all add: choked_def)
  from add obtain d e where s':
    "voices s' = voices s1 @ [newVoice g time e (nextId s1)]"
    "cleanups s' = cleanups s1 @ [(d, newVoice g time e (nextId s1))]"
    "activeChokeGroup s' = (activeChokeGroup s1)(g \<mapsto> newVoice g time e (nextId s1))"
    "nextId s' = nextId s1 + 8"
    "\<forall>i. i < nextId s1 \<longrightarrow> heap s' i = heap s1 i"
    "\<forall>i \<in> set (nodes (newVoice g time e (nextId s1))).
       \<exists>n. heap s' i = Some n \<and> (scheduledSource n \<longrightarrow> started n \<noteq> None)"
    unfolding voiceAdded_def by blast
  let ?nv = "newVoice g time e (nextId s1)"
  have kn: "known s' = insert ?nv (known s1)" by (auto simp add: known_def s')
  have old_id: "\<And>v. v \<in> known s1 \<Longrightarrow> voiceId v < nextId s1" by (rule chokeInvD(2) [OF inv])
  have old_nodes: "\<And>v i. v \<in> known s1 \<Longrightarrow> i \<in> set (nodes v) \<Longrightarrow> i < nextId s1"
    by (rule chokeInvD(3) [OF inv])
  have sub: "set (voices s1) \<subseteq> known s1" by (rule chokeInvD(5) [OF inv])
  have fresh: "?nv \<notin> known s1" using old_id [of ?nv] by (auto simp add: newVoice_simps)
  have nogroup: "\<And>v. v \<in> set (voices s1) \<Longrightarrow> chokeGroup v \<noteq> Some g"
    using chokeInvD(7) [OF inv] free by force
  show ?thesis
    unfolding chokeInv_def
  proof (intro conjI ballI allI impI)
    have "nextId s1 + 7 \<notin> (\<lambda>e. voiceId (snd e)) ` set (cleanups s1)"
    proof
      assume "nextId s1 + 7 \<in> (\<lambda>e. voiceId (snd e)) ` set (cleanups s1)"
      then obtain x where "x \<in> set (cleanups s1)" "voiceId (snd x) = nextId s1 + 7" by auto
      with old_id [of "snd x"] show False by (auto simp add: known_def)
    qed
    then show "distinct (map (\<lambda>e. voiceId (snd e)) (cleanups s'))"
      using chokeInvD(1) [OF inv] by (simp add: s' newVoice_simps)
  next
    fix v assume "v \<in> known s'"
    then show "voiceId v < nextId s'"
      using old_id [of v] by (auto simp add: kn s' newVoice_simps)
  next
    fix v i assume "v \<in> known s'" "i \<in> set (nodes v)"
    then show "i < nextId s'"
      using old_nodes [of v i] by (auto simp add: kn s' newVoice_simps)
  next
    fix u v assume "u \<in> known s'" "v \<in> known s'" "u \<noteq> v"
    then show "set (nodes u) \<inter> set (nodes v) = {}"
      using chokeInvD(4) [OF inv, of u v] old_nodes [of u] old_nodes [of v]
      by (fastforce simp add: kn newVoice_simps)
  next
    show "set (voices s') \<subseteq> known s'" using sub by (auto simp add: kn s')
  next
    have "nextId s1 + 7 \<notin> voiceId ` set (voices s1)"
    proof
      assume "nextId s1 + 7 \<in> voiceId ` set (voices s1)"
      then obtain x where "x \<in> set (voices s1)" "voiceId x = nextId s1 + 7" by auto
      with old_id [of x] sub show False by auto
    qed
    then show "distinct (map voiceId (voices s'))"
      using chokeInvD(6) [OF inv] by (simp add: s' newVoice_simps)
  next
    fix v assume "v \<in> set (voices s')"
    then consider "v \<in> set (voices s1)" | "v = ?nv" by (auto simp add: s')
    then show "\<exists>g'. chokeGroup v = Some g' \<and> activeChokeGroup s' g' = Some v"
    proof cases
      case 1
      from chokeInvD(7) [OF inv 1] obtain g' where "chokeGroup v = Some g'"
        "activeChokeGroup s1 g' = Some v" by auto
      with nogroup [OF 1] show ?thesis by (auto simp add: s')
    next
      case 2
      then show ?thesis by (simp add: s' newVoice_simps)
    qed
  next
    fix g' v assume a: "activeChokeGroup s' g' = Some v"
    show "v \<in> set (voices s')" "chokeGroup v = Some g'"
      using a chokeInvD(8) [of s1 g' v, OF inv]
      by (auto simp add: s' newVoice_simps split: if_splits)
  next
    fix v i assume "v \<in> set (voices s')" "i \<in> set (nodes v)"
    then consider "v \<in> set (voices s1)" "i \<in> set (nodes v)" | "i \<in> set (nodes ?nv)"
      by (auto simp add: s')
    then show "\<exists>n. heap s' i = Some n \<and> (scheduledSource n \<longrightarrow> started n \<noteq> None)"
    proof cases
      case 1
      with old_nodes [of v i] sub have "i < nextId s1" by auto
      with s'(5) chokeInvD(9) [OF inv 1] show ?thesis by simp
    next
      case 2
      with s'(6) show ?thesis by blast
    qed
  qed
qed

lemma trigger_inv:
  assumes "chokeInv s"
  shows "chokeInv (stateOf (HiHatSynth_trigger time vel params s))"
proof (cases "triggerSkips time params s")
  case True
  with chokePrevious_choked [OF assms, of "triggerGroup params s" time] show ?thesis
    by (simp add: trigger_skipped choked_def)
next
  case False
  from chokePrevious_choked [OF assms] trigger_added(2) [OF False]
  show ?thesis by (rule voiceAdded_inv)
qed

lemma new_HiHatSynth_inv: "chokeInv (new_HiHatSynth c)"
  by (simp add: chokeInv_def known_def new_HiHatSynth_def)

lemma autoCleanup_inv:
  assumes inv: "chokeInv s" and v: "v \<in> known s"
  shows "chokeInv (HiHatSynth_autoCleanup v s)"
    and "v \<notin> set (voices (HiHatSynth_autoCleanup v s))"
    and "set (voices (HiHatSynth_autoCleanup v s)) \<subseteq> set (voices s)"
    and "cleanups (HiHatSynth_autoCleanup v s) = cleanups s"
proof -
  have has: "voices_has v (voices s) \<longleftrightarrow> v \<in> set (voices s)"
  proof
    assume "voices_has v (voices s)"
    then obtain u where u: "u \<in> set (voices s)" "voiceId u = voiceId v"
      by (auto simp add: voices_has_def list_ex_iff)
    with chokeInvD(5) [OF inv] have "u \<in> known s" by auto
    from known_unique [OF chokeInvD(1) [OF inv] this v u(2)] u show "v \<in> set (voices s)" by simp
  next
    assume "v \<in> set (voices s)"
    then show "voices_has v (voices s)" by (auto simp add: voices_has_def list_ex_iff)
  qed
  show "chokeInv (HiHatSynth_autoCleanup v s)"
    using inv has by (simp add: HiHatSynth_autoCleanup_def voice_stop_inv)
  show "v \<notin> set (voices (HiHatSynth_autoCleanup v s))"
    using has by (auto simp add: HiHatSynth_autoCleanup_def HiHatSynth_voice_stop_def
        voices_delete_def Let_def split: option.splits)
  show "set (voices (HiHatSynth_autoCleanup v s)) \<subseteq> set (voices s)"
    by (auto simp add: HiHatSynth_autoCleanup_def HiHatSynth_voice_stop_def
        voices_delete_def Let_def split: option.splits)
  show "cleanups (HiHatSynth_autoCleanup v s) = cleanups s"
    by (auto simp add: HiHatSynth_autoCleanup_def HiHatSynth_voice_stop_def
        Let_def split: option.splits)
qed

lemma timerFires_inv:
  assumes inv: "chokeInv s" and e: "e \<in> set (cleanups s)"
  shows "chokeInv (timerFires e s)"
proof -
  let ?s2 = "HiHatSynth_autoCleanup (snd e) s"
  from e have v: "snd e \<in> known s" by (simp add: known_def)
  note a = autoCleanup_inv [OF inv v]
  have d: "distinct (map (\<lambda>e. voiceId (snd e)) (cleanups s))" by (rule chokeInvD(1) [OF inv])
  then have dc: "distinct (cleanups s)" and inj: "inj_on (\<lambda>e. voiceId (snd e)) (set (cleanups s))"
    by (simp_all add: distinct_map)
  have rem: "set (remove1 e (cleanups s)) = set (cleanups s) - {e}" using dc by simp
  have kn: "known (timerFires e s) \<subseteq> known ?s2"
    by (auto simp add: known_def timerFires_def a(4) rem)
  have vs: "set (voices (timerFires e s)) \<subseteq> known (timerFires e s)"
  proof
    fix u assume "u \<in> set (voices (timerFires e s))"
    then have u: "u \<in> set (voices ?s2)" by (simp add: timerFires_def)
    with a(2) have ne: "u \<noteq> snd e" by auto
    from u chokeInvD(5) [OF a(1)] obtain e' where "e' \<in> set (cleanups s)" "u = snd e'"
      by (auto simp add: known_def a(4))
    with ne have "e' \<in> set (remove1 e (cleanups s))" "u = snd e'" by (auto simp add: rem)
    then show "u \<in> known (timerFires e s)" by (auto simp add: known_def timerFires_def)
  qed
  have d': "distinct (map (\<lambda>e. voiceId (snd e)) (cleanups (timerFires e s)))"
    using dc inj by (auto simp add: timerFires_def distinct_map rem intro: inj_on_subset)
  have same: "voices (timerFires e s) = voices ?s2" "heap (timerFires e s) = heap ?s2"
    "nextId (timerFires e s) = nextId ?s2" "activeChokeGroup (timerFires e s) = activeChokeGroup ?s2"
    by (simp_all add: timerFires_def)
  show ?thesis
    unfolding chokeInv_def
  proof (intro conjI ballI allI impI)
    show "distinct (map (\<lambda>e. voiceId (snd e)) (cleanups (timerFires e s)))" by (rule d')
    show "set (voices (timerFires e s)) \<subseteq> known (timerFires e s)" by (rule vs)
    show "distinct (map voiceId (voices (timerFires e s)))"
      using chokeInvD(6) [OF a(1)] by (simp add: same)
  next
    fix v assume "v \<in> known (timerFires e s)"
    with kn chokeInvD(2) [OF a(1), of v] show "voiceId v < nextId (timerFires e s)"
      by (auto simp add: same)
  next
    fix v i assume "v \<in> known (timerFires e s)" "i \<in> set (nodes v)"
    with kn chokeInvD(3) [OF a(1), of v i] show "i < nextId (timerFires e s)"
      by (auto simp add: same)
  next
    fix u v assume "u \<in> known (timerFires e s)" "v \<in> known (timerFires e s)" "u \<noteq> v"
    with kn chokeInvD(4) [OF a(1), of u v] show "set (nodes u) \<inter> set (nodes v) = {}"
      by auto
  next
    fix v assume "v \<in> set (voices (timerFires e s))"
    with chokeInvD(7) [OF a(1), of v]
    show "\<exists>g. chokeGroup v = Some g \<and> activeChokeGroup (timerFires e s) g = Some v"
      by (simp add: same)
  next
    fix g v assume "activeChokeGroup (timerFires e s) g = Some v"
    with chokeInvD(8) [OF a(1), of g v]
    show "v \<in> set (voices (timerFires e s))" "chokeGroup v = Some g"
      by (simp_all add: same)
  next
    fix v i assume "v \<in> set (voices (timerFires e s))" "i \<in> set (nodes v)"
    with chokeInvD(9) [OF a(1), of v i]
    show "\<exists>n. heap (timerFires e s) i = Some n \<and> (scheduledSource n \<longrightarrow> started n \<noteq> None)"
      by (simp add: same)
  qed
qed

lemma reachable_inv: "reachable s \<Longrightarrow> chokeInv s"
proof (induction rule: reachable.induct)
  case (created c)
  show ?case by (rule new_HiHatSynth_inv)
next
  case (triggered s time velocity' params)
  then show ?case by (simp add: trigger_inv)
next
  case (timer s e)
  then show ?case by (simp add: timerFires_inv)
next
  case (clock s c)
  then show ?case by (simp add: chokeInv_def known_def)
next
  case (parameter s param x)
  then show ?case by (simp add: chokeInv_def known_def setParameter_def)
qed

lemma group_at_most_one:
  assumes "chokeInv s"
  shows "length (filter (\<lambda>v. chokeGroup v = Some g) (voices s)) \<le> 1"
proof -
  let ?xs = "filter (\<lambda>v. chokeGroup v = Some g) (voices s)"
  from chokeInvD(6) [OF assms] have "distinct (voices s)" by (simp add: distinct_map)
  then have d: "distinct ?xs" by simp
  have all: "activeChokeGroup s g = Some x" if "x \<in> set ?xs" for x
    using chokeInvD(7) [OF assms, of x] that by auto
  show ?thesis
  proof (cases ?xs)
    case Nil
    then show ?thesis by simp
  next
    case (Cons x ys)
    show ?thesis
    proof (cases ys)
      case Nil
      with Cons show ?thesis by simp
    next
      case (Cons y zs)
      with \<open>?xs = x # ys\<close> have xs: "?xs = x # y # zs" by simp
      then have mx: "x \<in> set ?xs" and my: "y \<in> set ?xs" by simp_all
      from all [OF mx] all [OF my] have "x = y" by simp
      with d xs show ?thesis by simp
    qed
  qed
qed

text \<open>
  C3. In every state the hi-hat can reach, each choke group has at most one voice in the
  set of active voices, before and after a trigger. A trigger in group \<open>g\<close> removes the
  active voice of group \<open>g\<close> from the set, disconnects its nodes and stops its source at the
  trigger time (the clock is never negative); it leaves every active voice of another group
  in the set with its nodes untouched. When the trigger goes through, the new voice is the
  only voice of its group and starts at the trigger time.
\<close>

theorem choke_group_exclusive:
  assumes "reachable s"
  shows "let g = triggerGroup params s;
             s' = stateOf (HiHatSynth_trigger time velocity' params s)
         in (\<forall>g'. length (filter (\<lambda>v. chokeGroup v = Some g') (voices s)) \<le> 1) \<and>
            (\<forall>g'. length (filter (\<lambda>v. chokeGroup v = Some g') (voices s')) \<le> 1) \<and>
            (\<forall>v \<in> set (voices s).
               (chokeGroup v = Some g \<longrightarrow>
                  v \<notin> set (voices s') \<and>
                  (\<forall>i \<in> set (nodes v). \<exists>n. heap s' i = Some n \<and> outputs n = {} \<and>
                     (scheduledSource n \<and> 0 \<le> time \<longrightarrow> stopped n = Some time))) \<and>
               (chokeGroup v \<noteq> Some g \<longrightarrow>
                  v \<in> set (voices s') \<and> (\<forall>i \<in> set (nodes v). heap s' i = heap s i))) \<and>
            (\<not> triggerSkips time params s \<longrightarrow>
               (\<exists>nv. filter (\<lambda>v. chokeGroup v = Some g) (voices s') = [nv] \<and>
                     startTime nv = time))"
proof -
  define g where "g = triggerGroup params s"
  define s1 where "s1 = chokePrevious g time s"
  define s' where "s' = stateOf (HiHatSynth_trigger time velocity' params s)"
  from assms have inv: "chokeInv s" by (rule reachable_inv)
  then have inv': "chokeInv s'" by (simp add: s'_def trigger_inv)
  from inv have ch: "choked g time s s1" unfolding s1_def by (rule chokePrevious_choked)
  then have inv1: "chokeInv s1" and nid: "nextId s1 = nextId s"
    and vs1: "set (voices s1) = {v \<in> set (voices s). chokeGroup v \<noteq> Some g}"
    and hp1: "\<And>v i. v \<in> set (voices s) \<Longrightarrow> i \<in> set (nodes v) \<Longrightarrow>
        (if chokeGroup v = Some g
         then (\<exists>n. heap s i = Some n \<and> heap s1 i = Some (stopNode time n))
         else heap s1 i = heap s i)"
    by (simp_all add: choked_def)
  have old: "voiceId v < nextId s1 \<and> (\<forall>i \<in> set (nodes v). i < nextId s1)"
    if "v \<in> set (voices s)" for v
    using chokeInvD(2,3,5) [OF inv] that nid by auto
  have shape: "(set (voices s') = set (voices s1) \<and> (\<forall>i. i < nextId s1 \<longrightarrow> heap s' i = heap s1 i)) \<or>
      (\<exists>nv. voices s' = voices s1 @ [nv] \<and> voiceId nv = nextId s1 + 7 \<and>
            (\<forall>i. i < nextId s1 \<longrightarrow> heap s' i = heap s1 i))"
  proof (cases "triggerSkips time params s")
    case True
    then show ?thesis by (simp add: s'_def s1_def g_def trigger_skipped)
  next
    case False
    from trigger_added(2) [OF False, of velocity'] show ?thesis
      unfolding voiceAdded_def s'_def s1_def g_def by (auto simp add: newVoice_simps)
  qed
  have heap_old: "heap s' i = heap s1 i" if "v \<in> set (voices s)" "i \<in> set (nodes v)" for v i
    using shape old [OF that(1)] that(2) by auto
  have mem: "v \<in> set (voices s') \<longleftrightarrow> v \<in> set (voices s1)" if "v \<in> set (voices s)" for v
    using shape old [OF that] by auto
  have part3: "\<forall>v \<in> set (voices s).
               (chokeGroup v = Some g \<longrightarrow>
                  v \<notin> set (voices s') \<and>
                  (\<forall>i \<in> set (nodes v). \<exists>n. heap s' i = Some n \<and> outputs n = {} \<and>
                     (scheduledSource n \<and> 0 \<le> time \<longrightarrow> stopped n = Some time))) \<and>
               (chokeGroup v \<noteq> Some g \<longrightarrow>
                  v \<in> set (voices s') \<and> (\<forall>i \<in> set (nodes v). heap s' i = heap s i))"
  proof (intro ballI conjI impI)
    fix v assume v: "v \<in> set (voices s)" and gv: "chokeGroup v = Some g"
    with mem [OF v] vs1 show "v \<notin> set (voices s')" by simp
    show "\<exists>n. heap s' i = Some n \<and> outputs n = {} \<and>
             (scheduledSource n \<and> 0 \<le> time \<longrightarrow> stopped n = Some time)"
      if i: "i \<in> set (nodes v)" for i
    proof -
      from hp1 [OF v i] gv obtain n where n: "heap s i = Some n" "heap s1 i = Some (stopNode time n)"
        by auto
      from chokeInvD(9) [OF inv v i] n have "scheduledSource n \<longrightarrow> started n \<noteq> None" by simp
      with n heap_old [OF v i] show ?thesis by (auto simp add: stopNode_started)
    qed
  next
    fix v assume v: "v \<in> set (voices s)" and gv: "chokeGroup v \<noteq> Some g"
    with mem [OF v] vs1 show "v \<in> set (voices s')" by simp
    show "heap s' i = heap s i" if i: "i \<in> set (nodes v)" for i
      using hp1 [OF v i] gv heap_old [OF v i] by simp
  qed
  have part4: "\<exists>nv. filter (\<lambda>v. chokeGroup v = Some g) (voices s') = [nv] \<and> startTime nv = time"
    if "\<not> triggerSkips time params s"
  proof -
    from trigger_added(2) [OF that, of velocity'] obtain e where
      "voices s' = voices s1 @ [newVoice g time e (nextId s1)]"
      unfolding voiceAdded_def s'_def s1_def g_def by blast
    moreover from vs1 have "filter (\<lambda>v. chokeGroup v = Some g) (voices s1) = []"
      by (auto simp add: filter_empty_conv)
    ultimately show ?thesis by (simp add: newVoice_simps)
  qed
  from group_at_most_one [OF inv] group_at_most_one [OF inv'] part3 part4
  show ?thesis by (simp add: Let_def g_def [symmetric] s'_def [symmetric])
qed

lemmas hat_eval =
  hatTwoGroups_def hatClosed_def hatVoiceA_def hatVoiceB_def newVoice_def HiHatSynth_trigger_def
  chokePrevious_def HiHatSynth_voice_stop_def new_HiHatSynth_def HiHatSynth_defaultParameters_def
  paramOr_def getParameter_def triggerGroup_def triggerSkips_def voices_delete_def
  nodes_forEach_def stopNode_def disconnect_def AudioScheduledSourceNode_stop_def Let_def

theorem choke_group_exclusive_witness:
  "reachable hatTwoGroups \<and>
   voices hatTwoGroups = [hatVoiceA, hatVoiceB] \<and>
   triggerGroup None hatTwoGroups = 0 \<and>
   chokeGroup hatVoiceA = Some 0 \<and> chokeGroup hatVoiceB = Some 1 \<and>
   hatVoiceA \<notin> set (voices (stateOf (HiHatSynth_trigger (1 / 5) (100 / 127) None hatTwoGroups))) \<and>
   (\<exists>n. heap (stateOf (HiHatSynth_trigger (1 / 5) (100 / 127) None hatTwoGroups)) 1 = Some n \<and>
        outputs n = {} \<and> stopped n = Some (1 / 5)) \<and>
   hatVoiceB \<in> set (voices (stateOf (HiHatSynth_trigger (1 / 5) (100 / 127) None hatTwoGroups))) \<and>
   heap (stateOf (HiHatSynth_trigger (1 / 5) (100 / 127) None hatTwoGroups)) 9 =
     heap hatTwoGroups 9 \<and>
   length (filter (\<lambda>v. chokeGroup v = Some 0)
     (voices (stateOf (HiHatSynth_trigger (1 / 5) (100 / 127) None hatTwoGroups)))) \<le> 1 \<and>
   (\<exists>nv. filter (\<lambda>v. chokeGroup v = Some 0)
           (voices (stateOf (HiHatSynth_trigger (1 / 5) (100 / 127) None hatTwoGroups))) = [nv] \<and>
         startTime nv = 1 / 5)"
proof -
  let ?s' = "stateOf (HiHatSynth_trigger (1 / 5) (100 / 127) None hatTwoGroups)"
  have r: "reachable hatTwoGroups"
    unfolding hatTwoGroups_def hatClosed_def by (intro reachable.intros)
  have vs: "voices hatTwoGroups = [hatVoiceA, hatVoiceB]"
    by (simp add: hat_eval)
  have g: "triggerGroup None hatTwoGroups = 0" "\<not> triggerSkips (1 / 5) None hatTwoGroups"
    by (simp_all add: hat_eval)
  have cg: "chokeGroup hatVoiceA = Some 0" "chokeGroup hatVoiceB = Some 1"
    "1 \<in> set (nodes hatVoiceA)" "9 \<in> set (nodes hatVoiceB)"
    by (simp_all add: hatVoiceA_def hatVoiceB_def newVoice_def)
  have src: "\<forall>n. heap ?s' 1 = Some n \<longrightarrow> scheduledSource n"
    by (simp add: hat_eval)
  note inst = choke_group_exclusive [OF r, of None "1 / 5" "100 / 127", unfolded Let_def g]
  from inst have one: "length (filter (\<lambda>v. chokeGroup v = Some 0) (voices ?s')) \<le> 1"
    by blast
  from inst g have new: "\<exists>nv. filter (\<lambda>v. chokeGroup v = Some 0) (voices ?s') = [nv] \<and>
      startTime nv = 1 / 5"
    by blast
  from inst have each: "\<forall>v \<in> set (voices hatTwoGroups).
               (chokeGroup v = Some 0 \<longrightarrow>
                  v \<notin> set (voices ?s') \<and>
                  (\<forall>i \<in> set (nodes v). \<exists>n. heap ?s' i = Some n \<and> outputs n = {} \<and>
                     (scheduledSource n \<and> 0 \<le> (1 / 5 :: real) \<longrightarrow> stopped n = Some (1 / 5)))) \<and>
               (chokeGroup v \<noteq> Some 0 \<longrightarrow>
                  v \<in> set (voices ?s') \<and> (\<forall>i \<in> set (nodes v). heap ?s' i = heap hatTwoGroups i))"
    by blast
  from each vs cg have a: "hatVoiceA \<notin> set (voices ?s')"
    "\<exists>n. heap ?s' 1 = Some n \<and> outputs n = {} \<and> (scheduledSource n \<longrightarrow> stopped n = Some (1 / 5))"
    by simp_all
  with src have a2: "\<exists>n. heap ?s' 1 = Some n \<and> outputs n = {} \<and> stopped n = Some (1 / 5)"
    by blast
  from each vs cg have b: "hatVoiceB \<in> set (voices ?s')" "heap ?s' 9 = heap hatTwoGroups 9"
    by simp_all
  from r vs g cg a(1) a2 b one new show ?thesis by blast
qed

end
